theory Spec2Isabelle
  imports Complex_Main "HOL-Library.Multiset" "HOL-Library.Sublist"
begin

section \<open>Containers of the host language\<close>

text \<open>
  A JavaScript \<open>Set\<close> iterates in insertion order and ignores the insertion of an
  element it already holds: it is modelled as a duplicate-free list that grows at the
  end. A \<open>Map\<close> is an association list with the same discipline on its keys.
\<close>

type_synonym SplitString = string

definition set_add :: "'a \<Rightarrow> 'a list \<Rightarrow> 'a list" where
  "set_add x xs = (if x \<in> set xs then xs else xs @ [x])"

definition new_Set :: "'a list \<Rightarrow> 'a list" where
  "new_Set xs = fold set_add xs []"

section \<open>Preference DAG (graph.ts, class DAG)\<close>

text \<open>
  The field \<open>g : Map<SplitString, Set<SplitString>>\<close>. The constructor maps every
  vertex to an empty set; a repeated vertex keeps its first position.
\<close>

type_synonym graph = "(SplitString \<times> SplitString list) list"

definition DAG :: "SplitString list \<Rightarrow> graph" where
  "DAG verts = map (\<lambda>v. (v, [])) (new_Set verts)"

definition keys :: "graph \<Rightarrow> SplitString list" where
  "keys g = map fst g"

text \<open>
  \<open>getMatchingNodes\<close>: a node that ends in \<open>*\<close> is a prefix pattern over the keys
  (in key order); any other node matches itself when it is a key.
\<close>

definition getMatchingNodes :: "graph \<Rightarrow> SplitString \<Rightarrow> SplitString list" where
  "getMatchingNodes g node =
     (if node \<noteq> [] \<and> last node = CHR ''*''
      then filter (\<lambda>k. prefix (butlast node) k) (keys g)
      else if node \<in> set (keys g) then [node] else [])"

text \<open>
  \<open>hasPath\<close>: the \<open>while (stack.length)\<close> loop. The stack is kept with its top at
  the head, so \<open>stack.push(...ns)\<close> is \<open>rev ns @ stack\<close>. \<open>this.g.get(node)!\<close> on a
  node that is no key yields \<open>undefined\<close>, and spreading it throws: that is the
  result \<open>None\<close>.
\<close>

function hasPath_loop ::
  "graph \<Rightarrow> SplitString list \<Rightarrow> SplitString list \<Rightarrow> SplitString list \<Rightarrow> SplitString list
     \<Rightarrow> SplitString list option" where
  "hasPath_loop g dstList visited reachable [] = Some reachable"
| "hasPath_loop g dstList visited reachable (node # stack) =
     (if node \<in> set dstList \<and> length (set_add node reachable) = length dstList
      then Some (set_add node reachable)
      else if node \<notin> set visited
        then (case map_of g node of
                None \<Rightarrow> None
              | Some ns \<Rightarrow>
                  hasPath_loop g dstList (set_add node visited)
                    (if node \<in> set dstList then set_add node reachable else reachable)
                    (rev ns @ stack))
        else hasPath_loop g dstList visited
               (if node \<in> set dstList then set_add node reachable else reachable) stack)"
  by pat_completeness auto
termination
proof (relation "measures [\<lambda>(g, d, vis, r, st). card (fst ` set g - set vis),
                           \<lambda>(g, d, vis, r, st). length st]", goal_cases)
  case 1
  show ?case by simp
next
  case (2 g dstList visited reachable node stack ns)
  have fin: "finite (fst ` set g - set visited)" by simp
  from 2 have "node \<in> fst ` set g"
    by (metis map_of_eq_None_iff option.distinct(1))
  with 2 have "fst ` set g - set (set_add node visited) \<subset> fst ` set g - set visited"
    by (auto simp: set_add_def)
  from psubset_card_mono[OF fin this] show ?case by simp
next
  case 3
  then show ?case by simp
qed

definition hasPath :: "graph \<Rightarrow> SplitString \<Rightarrow> SplitString list \<Rightarrow> bool list option" where
  "hasPath g src dstList =
     map_option (\<lambda>reachable. map (\<lambda>v. v \<in> set reachable) dstList)
       (hasPath_loop g dstList [] [] [src])"

text \<open>\<open>this.g.get(u)!.add(v)\<close>: insertion into the successor set of a key.\<close>

definition add_edge :: "graph \<Rightarrow> SplitString \<Rightarrow> SplitString \<Rightarrow> graph" where
  "add_edge g u v = map (\<lambda>(k, ns). if k = u then (k, set_add v ns) else (k, ns)) g"

text \<open>
  \<open>addEdges\<close>. The first loop looks for the first entry that matches a node; the
  second walks the rest. For one matched group \<open>vs\<close>, \<open>edges_to\<close> is the loop over
  \<open>j\<close> (the pairs of \<open>us[j]\<close> and \<open>hasPaths[j]\<close>), \<open>edges_from_frontier\<close> the loop over
  \<open>v\<close>; both carry the graph and \<open>chainEnds\<close>.
\<close>

fun first_match :: "graph \<Rightarrow> SplitString list \<Rightarrow> SplitString list \<times> SplitString list" where
  "first_match g [] = ([], [])"
| "first_match g (x # order) =
     (if getMatchingNodes g x \<noteq> [] then (getMatchingNodes g x, order)
      else first_match g order)"

fun edges_to ::
  "SplitString \<Rightarrow> (SplitString \<times> bool) list \<Rightarrow> graph \<times> SplitString list
     \<Rightarrow> (graph \<times> SplitString list) option" where
  "edges_to v [] st = Some st"
| "edges_to v ((u, hp) # rest) (g, chainEnds) =
     (if \<not> hp
      then (case map_of g u of
              None \<Rightarrow> None
            | Some _ \<Rightarrow> edges_to v rest (add_edge g u v, removeAll u chainEnds))
      else edges_to v rest (g, chainEnds))"

fun edges_from_frontier ::
  "SplitString list \<Rightarrow> SplitString list \<Rightarrow> graph \<times> SplitString list
     \<Rightarrow> (graph \<times> SplitString list) option" where
  "edges_from_frontier us [] st = Some st"
| "edges_from_frontier us (v # vs) (g, chainEnds) =
     (case hasPath g v us of
        None \<Rightarrow> None
      | Some hasPaths \<Rightarrow>
          (case edges_to v (zip us hasPaths) (g, chainEnds) of
             None \<Rightarrow> None
           | Some st \<Rightarrow> edges_from_frontier us vs st))"

fun addEdges_loop :: "SplitString list \<Rightarrow> SplitString list \<Rightarrow> graph \<Rightarrow> graph option" where
  "addEdges_loop [] us g = Some g"
| "addEdges_loop (x # order) us g =
     (if getMatchingNodes g x = [] then addEdges_loop order us g
      else (case edges_from_frontier us (getMatchingNodes g x) (g, new_Set us) of
              None \<Rightarrow> None
            | Some (g', chainEnds) \<Rightarrow>
                addEdges_loop order (chainEnds @ getMatchingNodes g x) g'))"

definition addEdges :: "graph \<Rightarrow> SplitString list \<Rightarrow> graph option" where
  "addEdges g order = (case first_match g order of (us, rest) \<Rightarrow> addEdges_loop rest us g)"

text \<open>A sequence of \<open>addEdges\<close> calls on one graph; a throw ends it.\<close>

fun addEdges_all :: "graph \<Rightarrow> SplitString list list \<Rightarrow> graph option" where
  "addEdges_all g [] = Some g"
| "addEdges_all g (order # orders) =
     (case addEdges g order of None \<Rightarrow> None | Some g' \<Rightarrow> addEdges_all g' orders)"

text \<open>The edge relation of a graph, and the shape every graph of the class has.\<close>

definition edges :: "graph \<Rightarrow> (SplitString \<times> SplitString) set" where
  "edges g = {(u, v). \<exists>ns. map_of g u = Some ns \<and> v \<in> set ns}"

definition wf_graph :: "graph \<Rightarrow> bool" where
  "wf_graph g \<longleftrightarrow>
     distinct (keys g) \<and> (\<forall>(u, ns) \<in> set g. distinct ns \<and> set ns \<subseteq> set (keys g))"

subsection \<open>The depth-first search decides reachability\<close>

lemma set_set_add [simp]: "set (set_add x xs) = insert x (set xs)"
  by (auto simp: set_add_def)

lemma distinct_set_add [simp]: "distinct (set_add x xs) = distinct xs"
  by (auto simp: set_add_def)

lemma edges_iff: "(u, v) \<in> edges g \<longleftrightarrow> (\<exists>ns. map_of g u = Some ns \<and> v \<in> set ns)"
  by (simp add: edges_def)

lemma wf_graph_succ_keys:
  "wf_graph g \<Longrightarrow> map_of g u = Some ns \<Longrightarrow> set ns \<subseteq> set (keys g)"
  by (auto simp: wf_graph_def dest!: map_of_SomeD)

lemma map_of_keys: "u \<in> set (keys g) \<Longrightarrow> \<exists>ns. map_of g u = Some ns"
  by (metis keys_def map_of_eq_None_iff not_None_eq set_map)

lemma hasPath_loop_correct:
  assumes "wf_graph g"
    and "set stack \<subseteq> set (keys g)"
    and "\<forall>x \<in> set stack \<union> set visited. (src, x) \<in> (edges g)\<^sup>*"
    and "\<forall>x \<in> set visited. \<forall>y. (x, y) \<in> edges g \<longrightarrow> y \<in> set visited \<union> set stack"
    and "src \<in> set visited \<union> set stack"
    and "set reachable \<subseteq> set dstList"
    and "\<forall>x \<in> set reachable. (src, x) \<in> (edges g)\<^sup>*"
    and "distinct reachable"
    and "set dstList \<inter> set visited \<subseteq> set reachable"
  shows "\<exists>r. hasPath_loop g dstList visited reachable stack = Some r \<and>
             (\<forall>d \<in> set dstList. d \<in> set r \<longleftrightarrow> (src, d) \<in> (edges g)\<^sup>*)"
  using assms
proof (induction g dstList visited reachable stack rule: hasPath_loop.induct)
  case (1 g dstList visited reachable)
  have closed: "y \<in> set visited" if "x \<in> set visited" "(x, y) \<in> (edges g)\<^sup>*" for x y
    using that(2,1)
  proof (induction rule: rtrancl_induct)
    case base
    then show ?case .
  next
    case (step y z)
    then show ?case using "1.prems"(4) by simp
  qed
  from "1.prems"(5) have "src \<in> set visited" by simp
  with closed have all: "\<And>d. (src, d) \<in> (edges g)\<^sup>* \<Longrightarrow> d \<in> set visited" by blast
  have "\<forall>d \<in> set dstList. d \<in> set reachable \<longleftrightarrow> (src, d) \<in> (edges g)\<^sup>*"
  proof (intro ballI iffI)
    fix d assume "d \<in> set dstList" "d \<in> set reachable"
    then show "(src, d) \<in> (edges g)\<^sup>*" using "1.prems"(7) by blast
  next
    fix d assume "d \<in> set dstList" "(src, d) \<in> (edges g)\<^sup>*"
    then have "d \<in> set dstList \<inter> set visited" using all by blast
    then show "d \<in> set reachable" using "1.prems"(9) by blast
  qed
  then show ?case by simp
next
  case (2 g dstList visited reachable node stack)
  let ?r' = "if node \<in> set dstList then set_add node reachable else reachable"
  note wf = "2.prems"(1)
  have node_key: "node \<in> set (keys g)" and stack_keys: "set stack \<subseteq> set (keys g)"
    using "2.prems"(2) by simp_all
  have node_reach: "(src, node) \<in> (edges g)\<^sup>*" using "2.prems"(3) by simp
  have r'_sub: "set ?r' \<subseteq> set dstList" using "2.prems"(6) by simp
  have r'_reach: "\<forall>x \<in> set ?r'. (src, x) \<in> (edges g)\<^sup>*"
    using "2.prems"(7) node_reach by simp
  have r'_dist: "distinct ?r'" using "2.prems"(8) by simp
  show ?case
  proof (cases "node \<in> set dstList \<and> length (set_add node reachable) = length dstList")
    case True
    then have eq: "?r' = set_add node reachable" by simp
    have "card (set ?r') = length dstList" using True r'_dist eq
      by (metis distinct_card)
    moreover have "card (set dstList) \<le> length dstList" by (rule card_length)
    ultimately have "set ?r' = set dstList"
      using r'_sub by (metis List.finite_set card_seteq)
    moreover have "\<forall>x \<in> set (set_add node reachable). (src, x) \<in> (edges g)\<^sup>*"
      using r'_reach True by simp
    ultimately have "\<forall>d \<in> set dstList. d \<in> set (set_add node reachable) \<longleftrightarrow> (src, d) \<in> (edges g)\<^sup>*"
      unfolding eq by blast
    with True show ?thesis by simp
  next
    case nobreak: False
    show ?thesis
    proof (cases "node \<in> set visited")
      case True
      have "\<exists>r. hasPath_loop g dstList visited ?r' stack = Some r \<and>
             (\<forall>d \<in> set dstList. d \<in> set r \<longleftrightarrow> (src, d) \<in> (edges g)\<^sup>*)"
      proof (rule "2.IH"(2)[OF nobreak _ wf])
        show "\<not> node \<notin> set visited" using True by simp
        show "set stack \<subseteq> set (keys g)" by (rule stack_keys)
        show "\<forall>x \<in> set stack \<union> set visited. (src, x) \<in> (edges g)\<^sup>*"
          using "2.prems"(3) by simp
        show "\<forall>x \<in> set visited. \<forall>y. (x, y) \<in> edges g \<longrightarrow> y \<in> set visited \<union> set stack"
          using "2.prems"(4) True by auto
        show "src \<in> set visited \<union> set stack" using "2.prems"(5) True by auto
        show "set ?r' \<subseteq> set dstList" by (rule r'_sub)
        show "\<forall>x \<in> set ?r'. (src, x) \<in> (edges g)\<^sup>*" by (rule r'_reach)
        show "distinct ?r'" by (rule r'_dist)
        show "set dstList \<inter> set visited \<subseteq> set ?r'" using "2.prems"(9) by auto
      qed
      moreover have "hasPath_loop g dstList visited reachable (node # stack) =
                     hasPath_loop g dstList visited ?r' stack"
        unfolding hasPath_loop.simps(2) if_not_P[OF nobreak] using True by simp
      ultimately show ?thesis by simp
    next
      case False
      from node_key obtain ns where ns: "map_of g node = Some ns"
        using map_of_keys[of node g] by auto
      have ns_keys: "set ns \<subseteq> set (keys g)" using wf_graph_succ_keys[OF wf ns] .
      have ns_edge: "\<And>y. y \<in> set ns \<longleftrightarrow> (node, y) \<in> edges g"
        using ns by (auto simp: edges_iff)
      have "\<exists>r. hasPath_loop g dstList (set_add node visited) ?r' (rev ns @ stack) = Some r \<and>
             (\<forall>d \<in> set dstList. d \<in> set r \<longleftrightarrow> (src, d) \<in> (edges g)\<^sup>*)"
      proof (rule "2.IH"(1)[OF nobreak False ns wf])
        show "set (rev ns @ stack) \<subseteq> set (keys g)" using stack_keys ns_keys by auto
        show "\<forall>x \<in> set (rev ns @ stack) \<union> set (set_add node visited). (src, x) \<in> (edges g)\<^sup>*"
        proof
          fix x assume "x \<in> set (rev ns @ stack) \<union> set (set_add node visited)"
          then consider "x \<in> set ns" | "x \<in> set stack \<union> set visited" | "x = node" by auto
          then show "(src, x) \<in> (edges g)\<^sup>*"
          proof cases
            case 1
            then have "(node, x) \<in> edges g" using ns_edge by simp
            with node_reach show ?thesis by (rule rtrancl_into_rtrancl)
          next
            case 2
            then show ?thesis using "2.prems"(3) by auto
          next
            case 3
            then show ?thesis using node_reach by simp
          qed
        qed
        show "\<forall>x \<in> set (set_add node visited). \<forall>y. (x, y) \<in> edges g \<longrightarrow>
                y \<in> set (set_add node visited) \<union> set (rev ns @ stack)"
          using "2.prems"(4) ns_edge by auto
        show "src \<in> set (set_add node visited) \<union> set (rev ns @ stack)"
          using "2.prems"(5) by auto
        show "set ?r' \<subseteq> set dstList" by (rule r'_sub)
        show "\<forall>x \<in> set ?r'. (src, x) \<in> (edges g)\<^sup>*" by (rule r'_reach)
        show "distinct ?r'" by (rule r'_dist)
        show "set dstList \<inter> set (set_add node visited) \<subseteq> set ?r'"
          using "2.prems"(9) by auto
      qed
      moreover have "hasPath_loop g dstList visited reachable (node # stack) =
                     hasPath_loop g dstList (set_add node visited) ?r' (rev ns @ stack)"
        unfolding hasPath_loop.simps(2) if_not_P[OF nobreak] using False ns by simp
      ultimately show ?thesis by simp
    qed
  qed
qed

subsection \<open>Edge insertion keeps the graph acyclic\<close>

lemma hasPath_correct:
  assumes "wf_graph g" and "src \<in> set (keys g)"
  shows "hasPath g src dstList = Some (map (\<lambda>d. (src, d) \<in> (edges g)\<^sup>*) dstList)"
proof -
  have "\<exists>r. hasPath_loop g dstList [] [] [src] = Some r \<and>
          (\<forall>d \<in> set dstList. d \<in> set r \<longleftrightarrow> (src, d) \<in> (edges g)\<^sup>*)"
    by (rule hasPath_loop_correct[OF assms(1)]) (use assms(2) in simp_all)
  then obtain r where r: "hasPath_loop g dstList [] [] [src] = Some r"
    and iff: "\<forall>d \<in> set dstList. d \<in> set r \<longleftrightarrow> (src, d) \<in> (edges g)\<^sup>*" by blast
  from iff have "map (\<lambda>v. v \<in> set r) dstList = map (\<lambda>d. (src, d) \<in> (edges g)\<^sup>*) dstList"
    by simp
  with r show ?thesis by (simp add: hasPath_def)
qed

lemma keys_add_edge [simp]: "keys (add_edge g u v) = keys g"
  by (induction g) (auto simp: add_edge_def keys_def)

lemma map_of_add_edge:
  "map_of (add_edge g u v) k =
     (if k = u then map_option (set_add v) (map_of g u) else map_of g k)"
  by (induction g) (auto simp: add_edge_def)

lemma edges_add_edge:
  "u \<in> set (keys g) \<Longrightarrow> edges (add_edge g u v) = insert (u, v) (edges g)"
proof -
  assume "u \<in> set (keys g)"
  then obtain ns where ns: "map_of g u = Some ns" using map_of_keys by blast
  show ?thesis
    by (auto simp: edges_def map_of_add_edge ns split: if_splits)
qed

lemma wf_graph_add_edge:
  assumes "wf_graph g" and "v \<in> set (keys g)"
  shows "wf_graph (add_edge g u v)"
  using assms unfolding wf_graph_def keys_add_edge
  by (fastforce simp: add_edge_def split: if_splits)

lemma add_edge_present:
  assumes "map_of g u = Some ns" and "v \<in> set ns" and "distinct (keys g)"
  shows "add_edge g u v = g"
proof -
  have *: "\<And>k ms. (k, ms) \<in> set g \<Longrightarrow> (if k = u then (k, set_add v ms) else (k, ms)) = (k, ms)"
  proof -
    fix k ms assume "(k, ms) \<in> set g"
    then have "map_of g k = Some ms" using assms(3) by (simp add: keys_def)
    with assms(1,2) show "(if k = u then (k, set_add v ms) else (k, ms)) = (k, ms)"
      by (auto simp: set_add_def)
  qed
  have "map (\<lambda>(k, ns). if k = u then (k, set_add v ns) else (k, ns)) g = map id g"
  proof (rule map_cong[OF refl])
    fix x assume "x \<in> set g"
    then show "(case x of (k, ns) \<Rightarrow> if k = u then (k, set_add v ns) else (k, ns)) = id x"
      using * by (cases x rule: prod.exhaust) simp
  qed
  then show ?thesis by (simp add: add_edge_def)
qed

lemma reach_insert_back:
  assumes "(v, x) \<in> (insert (u, v) E)\<^sup>*" 
  shows "(v, x) \<in> E\<^sup>*"
  using assms by (auto simp: rtrancl_insert)

lemma getMatchingNodes_keys: "set (getMatchingNodes g x) \<subseteq> set (keys g)"
proof (cases "x \<noteq> [] \<and> last x = CHR ''*''")
  case True
  then have "getMatchingNodes g x = filter (\<lambda>k. prefix (butlast x) k) (keys g)"
    unfolding getMatchingNodes_def by (rule if_P)
  then show ?thesis by simp
next
  case False
  then have "getMatchingNodes g x = (if x \<in> set (keys g) then [x] else [])"
    unfolding getMatchingNodes_def by (rule if_not_P)
  then show ?thesis by (cases "x \<in> set (keys g)") simp_all
qed

lemma set_new_Set_aux: "set (fold set_add xs acc) = set xs \<union> set acc"
  by (induction xs arbitrary: acc) auto

lemma set_new_Set [simp]: "set (new_Set xs) = set xs"
  by (simp add: new_Set_def set_new_Set_aux)

lemma distinct_new_Set_aux: "distinct acc \<Longrightarrow> distinct (fold set_add xs acc)"
  by (induction xs arbitrary: acc) auto

lemma distinct_new_Set [simp]: "distinct (new_Set xs)"
  by (simp add: new_Set_def distinct_new_Set_aux)


lemma getMatchingNodes_cong: "keys g' = keys g \<Longrightarrow> getMatchingNodes g' x = getMatchingNodes g x"
  by (simp add: getMatchingNodes_def)

lemma edges_to_inv:
  assumes "wf_graph g" and "acyclic (edges g)" and "v \<in> set (keys g)"
    and "\<forall>(u, hp) \<in> set pairs. u \<in> set (keys g) \<and> (\<not> hp \<longrightarrow> (v, u) \<notin> (edges g)\<^sup>*)"
  shows "\<exists>g' ce'. edges_to v pairs (g, ce) = Some (g', ce') \<and> wf_graph g' \<and>
           acyclic (edges g') \<and> keys g' = keys g \<and> edges g \<subseteq> edges g' \<and> set ce' \<subseteq> set ce"
  using assms
proof (induction pairs arbitrary: g ce)
  case Nil
  then show ?case by simp
next
  case (Cons p pairs)
  obtain u hp where p: "p = (u, hp)" by (cases p)
  have u_key: "u \<in> set (keys g)" and rest: "\<forall>(u, hp) \<in> set pairs. u \<in> set (keys g) \<and> (\<not> hp \<longrightarrow> (v, u) \<notin> (edges g)\<^sup>*)"
    using Cons.prems(4) p by auto
  show ?case
  proof (cases hp)
    case True
    from Cons.IH[OF Cons.prems(1,2,3) rest, of ce] True p show ?thesis by simp
  next
    case False
    then have nopath: "(v, u) \<notin> (edges g)\<^sup>*" using Cons.prems(4) p by auto
    let ?g1 = "add_edge g u v"
    obtain ns where ns: "map_of g u = Some ns" using map_of_keys[OF u_key] by blast
    have e1: "edges ?g1 = insert (u, v) (edges g)" by (rule edges_add_edge[OF u_key])
    have wf1: "wf_graph ?g1" by (rule wf_graph_add_edge[OF Cons.prems(1,3)])
    have ac1: "acyclic (edges ?g1)" unfolding e1 using Cons.prems(2) nopath
      by (simp add: acyclic_insert)
    have v1: "v \<in> set (keys ?g1)" using Cons.prems(3) by simp
    have rest1: "\<forall>(u', hp') \<in> set pairs. u' \<in> set (keys ?g1) \<and> (\<not> hp' \<longrightarrow> (v, u') \<notin> (edges ?g1)\<^sup>*)"
      using rest unfolding e1 by (auto dest: reach_insert_back)
    from Cons.IH[OF wf1 ac1 v1 rest1, of "removeAll u ce"]
    obtain g' ce' where r: "edges_to v pairs (?g1, removeAll u ce) = Some (g', ce')"
      "wf_graph g'" "acyclic (edges g')" "keys g' = keys ?g1" "edges ?g1 \<subseteq> edges g'"
      "set ce' \<subseteq> set (removeAll u ce)" by blast
    have "edges_to v (p # pairs) (g, ce) = Some (g', ce')"
      using False p ns r(1) by simp
    moreover have "edges g \<subseteq> edges g'" using r(5) e1 by blast
    moreover have "set ce' \<subseteq> set ce" using r(6) by auto
    ultimately show ?thesis using r(2,3,4) by simp
  qed
qed

lemma zip_map_self: "zip us (map f us) = map (\<lambda>u. (u, f u)) us"
  by (induction us) auto

lemma edges_from_frontier_inv:
  assumes "wf_graph g" and "acyclic (edges g)" and "set us \<subseteq> set (keys g)"
    and "set vs \<subseteq> set (keys g)"
  shows "\<exists>g' ce'. edges_from_frontier us vs (g, ce) = Some (g', ce') \<and> wf_graph g' \<and>
           acyclic (edges g') \<and> keys g' = keys g \<and> edges g \<subseteq> edges g' \<and> set ce' \<subseteq> set ce"
  using assms
proof (induction vs arbitrary: g ce)
  case Nil
  then show ?case by simp
next
  case (Cons v vs)
  have v_key: "v \<in> set (keys g)" using Cons.prems(4) by simp
  let ?hps = "map (\<lambda>d. (v, d) \<in> (edges g)\<^sup>*) us"
  have hp: "hasPath g v us = Some ?hps" by (rule hasPath_correct[OF Cons.prems(1) v_key])
  have pairs: "\<forall>(u, hp) \<in> set (zip us ?hps). u \<in> set (keys g) \<and> (\<not> hp \<longrightarrow> (v, u) \<notin> (edges g)\<^sup>*)"
    using Cons.prems(3) by (auto simp: zip_map_self)
  from edges_to_inv[OF Cons.prems(1,2) v_key pairs, of ce]
  obtain g1 ce1 where r1: "edges_to v (zip us ?hps) (g, ce) = Some (g1, ce1)"
    "wf_graph g1" "acyclic (edges g1)" "keys g1 = keys g" "edges g \<subseteq> edges g1"
    "set ce1 \<subseteq> set ce" by blast
  have "set us \<subseteq> set (keys g1)" "set vs \<subseteq> set (keys g1)"
    using Cons.prems(3,4) r1(4) by simp_all
  from Cons.IH[OF r1(2,3) this, of ce1]
  obtain g' ce' where r: "edges_from_frontier us vs (g1, ce1) = Some (g', ce')"
    "wf_graph g'" "acyclic (edges g')" "keys g' = keys g1" "edges g1 \<subseteq> edges g'"
    "set ce' \<subseteq> set ce1" by blast
  have "edges_from_frontier us (v # vs) (g, ce) = Some (g', ce')"
    using hp r1(1) r(1) by simp
  then show ?case using r(2,3,4,5,6) r1(4,5,6) by auto
qed

lemma addEdges_loop_inv:
  assumes "wf_graph g" and "acyclic (edges g)" and "set us \<subseteq> set (keys g)"
  shows "\<exists>g'. addEdges_loop order us g = Some g' \<and> wf_graph g' \<and>
           acyclic (edges g') \<and> keys g' = keys g \<and> edges g \<subseteq> edges g'"
  using assms
proof (induction order arbitrary: us g)
  case Nil
  then show ?case by simp
next
  case (Cons x order)
  let ?vs = "getMatchingNodes g x"
  show ?case
  proof (cases "?vs = []")
    case True
    with Cons.IH[OF Cons.prems] show ?thesis by simp
  next
    case False
    have vs_keys: "set ?vs \<subseteq> set (keys g)" by (rule getMatchingNodes_keys)
    from edges_from_frontier_inv[OF Cons.prems(1,2,3) vs_keys, of "new_Set us"]
    obtain g1 ce1 where r1: "edges_from_frontier us ?vs (g, new_Set us) = Some (g1, ce1)"
      "wf_graph g1" "acyclic (edges g1)" "keys g1 = keys g" "edges g \<subseteq> edges g1"
      "set ce1 \<subseteq> set (new_Set us)" by blast
    have "set (ce1 @ ?vs) \<subseteq> set (keys g1)"
      using r1(4,6) Cons.prems(3) vs_keys by auto
    from Cons.IH[OF r1(2,3) this]
    obtain g' where r: "addEdges_loop order (ce1 @ ?vs) g1 = Some g'" "wf_graph g'"
      "acyclic (edges g')" "keys g' = keys g1" "edges g1 \<subseteq> edges g'" by blast
    have "addEdges_loop (x # order) us g = Some g'"
      using False r1(1) r(1) by simp
    then show ?thesis using r(2,3,4,5) r1(4,5) by auto
  qed
qed

lemma first_match_keys: "first_match g order = (us, rest) \<Longrightarrow> set us \<subseteq> set (keys g)"
  by (induction order) (auto split: if_splits dest: subsetD[OF getMatchingNodes_keys])

lemma addEdges_inv:
  assumes "wf_graph g" and "acyclic (edges g)"
  shows "\<exists>g'. addEdges g order = Some g' \<and> wf_graph g' \<and>
           acyclic (edges g') \<and> keys g' = keys g \<and> edges g \<subseteq> edges g'"
proof -
  obtain us rest where fm: "first_match g order = (us, rest)" by (cases "first_match g order")
  from addEdges_loop_inv[OF assms first_match_keys[OF fm], of rest] fm
  show ?thesis by (simp add: addEdges_def)
qed

lemma addEdges_all_inv:
  assumes "wf_graph g" and "acyclic (edges g)"
  shows "\<exists>g'. addEdges_all g orders = Some g' \<and> wf_graph g' \<and>
           acyclic (edges g') \<and> keys g' = keys g \<and> edges g \<subseteq> edges g'"
  using assms
proof (induction orders arbitrary: g)
  case Nil
  then show ?case by simp
next
  case (Cons order orders)
  from addEdges_inv[OF Cons.prems, of order]
  obtain g1 where r1: "addEdges g order = Some g1" "wf_graph g1" "acyclic (edges g1)"
    "keys g1 = keys g" "edges g \<subseteq> edges g1" by blast
  from Cons.IH[OF r1(2,3)]
  obtain g' where r: "addEdges_all g1 orders = Some g'" "wf_graph g'" "acyclic (edges g')"
    "keys g' = keys g1" "edges g1 \<subseteq> edges g'" by blast
  show ?case using r1(1,4,5) r by auto
qed

lemma keys_DAG [simp]: "keys (DAG verts) = new_Set verts"
  by (simp add: DAG_def keys_def comp_def)

lemma edges_DAG [simp]: "edges (DAG verts) = {}"
  by (auto simp: edges_def DAG_def dest!: map_of_SomeD)

lemma wf_graph_DAG: "wf_graph (DAG verts)"
  unfolding wf_graph_def keys_DAG by (auto simp: DAG_def)

lemma acyclic_DAG: "acyclic (edges (DAG verts))"
  by (simp add: acyclic_def)

subsection \<open>Applying the same hints again changes nothing\<close>

lemma edges_to_mono:
  "edges_to v pairs (g, ce) = Some (g', ce') \<Longrightarrow> edges g \<subseteq> edges g' \<and> keys g' = keys g"
proof (induction pairs arbitrary: g ce)
  case Nil
  then show ?case by simp
next
  case (Cons p pairs)
  obtain u hp where p: "p = (u, hp)" by (cases p)
  show ?case
  proof (cases hp)
    case True
    with Cons p show ?thesis by simp
  next
    case False
    with Cons.prems p obtain ns where ns: "map_of g u = Some ns"
      and r: "edges_to v pairs (add_edge g u v, removeAll u ce) = Some (g', ce')"
      by (auto split: option.splits)
    have "u \<in> set (keys g)" using ns by (auto simp: keys_def dest!: map_of_SomeD intro: rev_image_eqI)
    then have "edges (add_edge g u v) = insert (u, v) (edges g)" by (rule edges_add_edge)
    with Cons.IH[OF r] show ?thesis by auto
  qed
qed

lemma edges_to_adds:
  "edges_to v pairs (g, ce) = Some (g', ce') \<Longrightarrow> (u, False) \<in> set pairs \<Longrightarrow> (u, v) \<in> edges g'"
proof (induction pairs arbitrary: g ce)
  case Nil
  then show ?case by simp
next
  case (Cons p pairs)
  obtain u' hp where p: "p = (u', hp)" by (cases p)
  show ?case
  proof (cases hp)
    case True
    with Cons p show ?thesis by auto
  next
    case False
    with Cons.prems p obtain ns where ns: "map_of g u' = Some ns"
      and r: "edges_to v pairs (add_edge g u' v, removeAll u' ce) = Some (g', ce')"
      by (auto split: option.splits)
    show ?thesis
    proof (cases "(u, False) \<in> set pairs")
      case True
      from Cons.IH[OF r True] show ?thesis .
    next
      case notin: False
      with Cons.prems(2) p have "u = u'" by auto
      have "u' \<in> set (keys g)" using ns by (auto simp: keys_def dest!: map_of_SomeD intro: rev_image_eqI)
      then have "(u', v) \<in> edges (add_edge g u' v)" by (simp add: edges_add_edge)
      with edges_to_mono[OF r] \<open>u = u'\<close> show ?thesis by auto
    qed
  qed
qed

lemma edges_to_replay:
  assumes "edges_to v pairs (g, ce) = Some (g', ce')" and "edges g' \<subseteq> edges G"
    and "distinct (keys G)"
  shows "edges_to v pairs (G, ce) = Some (G, ce')"
  using assms(1)
proof (induction pairs arbitrary: g ce)
  case Nil
  then show ?case by simp
next
  case (Cons p pairs)
  obtain u hp where p: "p = (u, hp)" by (cases p)
  show ?case
  proof (cases hp)
    case True
    with Cons p show ?thesis by simp
  next
    case False
    with Cons.prems p obtain ns where ns: "map_of g u = Some ns"
      and r: "edges_to v pairs (add_edge g u v, removeAll u ce) = Some (g', ce')"
      by (auto split: option.splits)
    have "(u, v) \<in> edges g'" using edges_to_adds[OF Cons.prems, of u] p False by simp
    with assms(2) have "(u, v) \<in> edges G" by blast
    then obtain ms where ms: "map_of G u = Some ms" "v \<in> set ms" by (auto simp: edges_iff)
    have same: "add_edge G u v = G" by (rule add_edge_present[OF ms assms(3)])
    from Cons.IH[OF r] have "edges_to v pairs (G, removeAll u ce) = Some (G, ce')" .
    with p False ms(1) same show ?thesis by simp
  qed
qed

lemma edges_to_wf:
  "edges_to v pairs (g, ce) = Some (g', ce') \<Longrightarrow> wf_graph g \<Longrightarrow> v \<in> set (keys g)
     \<Longrightarrow> wf_graph g'"
proof (induction pairs arbitrary: g ce)
  case Nil
  then show ?case by simp
next
  case (Cons p pairs)
  obtain u hp where p: "p = (u, hp)" by (cases p)
  show ?case
  proof (cases hp)
    case True
    with Cons p show ?thesis by simp
  next
    case False
    with Cons.prems(1) p
    have "edges_to v pairs (add_edge g u v, removeAll u ce) = Some (g', ce')"
      by (auto split: option.splits)
    from Cons.IH[OF this wf_graph_add_edge[OF Cons.prems(2,3)]] Cons.prems(3)
    show ?thesis by simp
  qed
qed

lemma edges_from_frontier_mono:
  "edges_from_frontier us vs (g, ce) = Some (g', ce') \<Longrightarrow> edges g \<subseteq> edges g'"
proof (induction vs arbitrary: g ce)
  case Nil
  then show ?case by simp
next
  case (Cons w ws)
  from Cons.prems obtain hps g2 ce2 where
    a: "edges_to w (zip us hps) (g, ce) = Some (g2, ce2)"
    and b: "edges_from_frontier us ws (g2, ce2) = Some (g', ce')"
    by (auto split: option.splits)
  from edges_to_mono[OF a] Cons.IH[OF b] show ?case by blast
qed

lemma edges_from_frontier_replay:
  assumes "edges_from_frontier us vs (g, ce) = Some (g', ce')"
    and "wf_graph g" and "set us \<subseteq> set (keys g)" and "set vs \<subseteq> set (keys g)"
    and "edges g' \<subseteq> edges G" and "wf_graph G" and "acyclic (edges G)" and "keys G = keys g"
  shows "edges_from_frontier us vs (G, ce) = Some (G, ce')"
  using assms(1,2,3,4,8)
proof (induction vs arbitrary: g ce)
  case Nil
  then show ?case by simp
next
  case (Cons v vs)
  have v_key: "v \<in> set (keys g)" using Cons.prems(4) by simp
  let ?hps = "map (\<lambda>d. (v, d) \<in> (edges g)\<^sup>*) us"
  have hp: "hasPath g v us = Some ?hps" by (rule hasPath_correct[OF Cons.prems(2) v_key])
  from Cons.prems(1) hp obtain g1 ce1 where
    r1: "edges_to v (zip us ?hps) (g, ce) = Some (g1, ce1)"
    and r: "edges_from_frontier us vs (g1, ce1) = Some (g', ce')"
    by (auto split: option.splits)
  have k1: "keys g1 = keys g" and m1: "edges g \<subseteq> edges g1" using edges_to_mono[OF r1] by auto
  have wf1: "wf_graph g1" by (rule edges_to_wf[OF r1 Cons.prems(2) v_key])
  have sub: "edges g1 \<subseteq> edges G"
    using edges_from_frontier_mono[OF r] assms(5) by blast
  have v_keyG: "v \<in> set (keys G)" using v_key Cons.prems(5) by simp
  have same: "map (\<lambda>d. (v, d) \<in> (edges G)\<^sup>*) us = ?hps"
  proof (rule map_cong[OF refl])
    fix u assume u: "u \<in> set us"
    show "((v, u) \<in> (edges G)\<^sup>*) = ((v, u) \<in> (edges g)\<^sup>*)"
    proof
      assume reachG: "(v, u) \<in> (edges G)\<^sup>*"
      show "(v, u) \<in> (edges g)\<^sup>*"
      proof (rule ccontr)
        assume "(v, u) \<notin> (edges g)\<^sup>*"
        with u have "(u, False) \<in> set (zip us ?hps)" by (auto simp: zip_map_self)
        from edges_to_adds[OF r1 this] sub have "(u, v) \<in> edges G" by blast
        from this reachG have "(u, u) \<in> (edges G)\<^sup>+" by (rule rtrancl_into_trancl2)
        with assms(7) show False by (simp add: acyclic_def)
      qed
    next
      assume "(v, u) \<in> (edges g)\<^sup>*"
      moreover have "edges g \<subseteq> edges G" using m1 sub by blast
      ultimately show "(v, u) \<in> (edges G)\<^sup>*" by (meson rtrancl_mono subsetD)
    qed
  qed
  have hpG: "hasPath G v us = Some ?hps"
    using hasPath_correct[OF assms(6) v_keyG, of us] same by simp
  have e: "edges_to v (zip us ?hps) (G, ce) = Some (G, ce1)"
    using edges_to_replay[OF r1 sub] assms(6) by (simp add: wf_graph_def)
  have "edges_from_frontier us vs (G, ce1) = Some (G, ce')"
    by (rule Cons.IH[OF r wf1]) (use Cons.prems k1 in simp_all)
  with hpG e show ?case by simp
qed


lemma addEdges_loop_replay:
  assumes "addEdges_loop order us g = Some g'"
    and "wf_graph g" and "acyclic (edges g)" and "set us \<subseteq> set (keys g)"
    and "edges g' \<subseteq> edges G" and "wf_graph G" and "acyclic (edges G)" and "keys G = keys g"
  shows "addEdges_loop order us G = Some G"
  using assms(1,2,3,4,8)
proof (induction order arbitrary: us g)
  case Nil
  then show ?case by simp
next
  case (Cons x order)
  let ?vs = "getMatchingNodes g x"
  have vsG: "getMatchingNodes G x = ?vs" by (rule getMatchingNodes_cong[OF Cons.prems(5)])
  show ?case
  proof (cases "?vs = []")
    case True
    with Cons vsG show ?thesis by simp
  next
    case False
    have vs_keys: "set ?vs \<subseteq> set (keys g)" by (rule getMatchingNodes_keys)
    from edges_from_frontier_inv[OF Cons.prems(2,3,4) vs_keys, of "new_Set us"]
    obtain g1 ce1 where r1: "edges_from_frontier us ?vs (g, new_Set us) = Some (g1, ce1)"
      "wf_graph g1" "acyclic (edges g1)" "keys g1 = keys g" "edges g \<subseteq> edges g1"
      "set ce1 \<subseteq> set (new_Set us)" by blast
    from Cons.prems(1) False r1(1)
    have r: "addEdges_loop order (ce1 @ ?vs) g1 = Some g'" by simp
    have us1: "set (ce1 @ ?vs) \<subseteq> set (keys g1)"
      using r1(4,6) Cons.prems(4) vs_keys by auto
    from addEdges_loop_inv[OF r1(2,3) us1, of order] r
    have "edges g1 \<subseteq> edges g'" by auto
    with assms(5) have sub1: "edges g1 \<subseteq> edges G" by blast
    have e: "edges_from_frontier us ?vs (G, new_Set us) = Some (G, ce1)"
      by (rule edges_from_frontier_replay[OF r1(1) Cons.prems(2,4) vs_keys sub1 assms(6,7) Cons.prems(5)])
    have "addEdges_loop order (ce1 @ ?vs) G = Some G"
      by (rule Cons.IH[OF r r1(2,3) us1]) (use r1(4) Cons.prems(5) in simp)
    with False e vsG show ?thesis by simp
  qed
qed

lemma first_match_cong:
  assumes "keys G = keys g"
  shows "first_match G order = first_match g order"
proof -
  have "\<And>x. getMatchingNodes G x = getMatchingNodes g x"
    by (rule getMatchingNodes_cong[OF assms])
  then show ?thesis by (induction order) simp_all
qed

lemma addEdges_replay:
  assumes "addEdges g order = Some g'" and "wf_graph g" and "acyclic (edges g)"
    and "edges g' \<subseteq> edges G" and "wf_graph G" and "acyclic (edges G)" and "keys G = keys g"
  shows "addEdges G order = Some G"
proof -
  obtain us rest where fm: "first_match g order = (us, rest)" by (cases "first_match g order")
  with assms(1) have "addEdges_loop rest us g = Some g'" by (simp add: addEdges_def)
  from addEdges_loop_replay[OF this assms(2,3) first_match_keys[OF fm] assms(4,5,6,7)]
  show ?thesis using fm first_match_cong[OF assms(7), of order] by (simp add: addEdges_def)
qed

lemma addEdges_all_replay:
  assumes "addEdges_all g orders = Some g'" and "wf_graph g" and "acyclic (edges g)"
    and "edges g' \<subseteq> edges G" and "wf_graph G" and "acyclic (edges G)" and "keys G = keys g"
  shows "addEdges_all G orders = Some G"
  using assms(1,2,3,7)
proof (induction orders arbitrary: g)
  case Nil
  then show ?case by simp
next
  case (Cons order orders)
  from addEdges_inv[OF Cons.prems(2,3), of order]
  obtain g1 where r1: "addEdges g order = Some g1" "wf_graph g1" "acyclic (edges g1)"
    "keys g1 = keys g" "edges g \<subseteq> edges g1" by blast
  with Cons.prems(1) have r: "addEdges_all g1 orders = Some g'" by simp
  from addEdges_all_inv[OF r1(2,3), of orders] r have "edges g1 \<subseteq> edges g'" by auto
  with assms(4) have sub1: "edges g1 \<subseteq> edges G" by blast
  have "addEdges G order = Some G"
    by (rule addEdges_replay[OF r1(1) Cons.prems(2,3) sub1 assms(5,6) Cons.prems(4)])
  moreover have "addEdges_all G orders = Some G"
    by (rule Cons.IH[OF r r1(2,3)]) (use r1(4) Cons.prems(4) in simp)
  ultimately show ?case by simp
qed

lemma addEdges_all_twice:
  assumes "wf_graph g" and "acyclic (edges g)"
  shows "\<exists>g1. addEdges_all g hints = Some g1 \<and> addEdges_all g1 hints = Some g1 \<and>
           wf_graph g1 \<and> acyclic (edges g1)"
proof -
  from addEdges_all_inv[OF assms, of hints]
  obtain g1 where r: "addEdges_all g hints = Some g1" "wf_graph g1" "acyclic (edges g1)"
    "keys g1 = keys g" by blast
  have "addEdges_all g1 hints = Some g1"
    by (rule addEdges_all_replay[OF r(1) assms _ r(2,3,4)]) simp
  with r show ?thesis by blast
qed

text \<open>
  Claim C2. Whatever vertex list the constructor is given and whatever hint lists are
  then passed to \<open>addEdges\<close>, one after the other (contradictory hints and wildcard
  patterns included), no call throws and the resulting graph has no cycle: no node
  reaches itself by a non-empty path.
\<close>

theorem addEdges_acyclic:
  "\<exists>g. addEdges_all (DAG verts) hints = Some g \<and> (\<forall>x. (x, x) \<notin> (edges g)\<^sup>+)"
  using addEdges_all_inv[OF wf_graph_DAG acyclic_DAG, of verts hints]
  by (auto simp: acyclic_def)

section \<open>Numbers of the host language\<close>

text \<open>
  A JavaScript number is a real, one of the two infinities, or \<open>NaN\<close>. The special
  values follow IEEE 754: a non-zero number divided by zero is an infinity, zero
  divided by zero, infinity times zero, infinity minus infinity and infinity divided by
  infinity are \<open>NaN\<close>, and \<open>NaN\<close> propagates through every operation and makes every
  comparison false. Arithmetic on finite values is exact: rounding, overflow and the
  sign of zero are not modelled.
\<close>

datatype number = NaN | PosInf | NegInf | Num real

fun num_neg :: "number \<Rightarrow> number" where
  "num_neg NaN = NaN"
| "num_neg PosInf = NegInf"
| "num_neg NegInf = PosInf"
| "num_neg (Num x) = Num (- x)"

fun num_add :: "number \<Rightarrow> number \<Rightarrow> number" where
  "num_add NaN _ = NaN"
| "num_add _ NaN = NaN"
| "num_add PosInf NegInf = NaN"
| "num_add NegInf PosInf = NaN"
| "num_add PosInf _ = PosInf"
| "num_add NegInf _ = NegInf"
| "num_add (Num x) PosInf = PosInf"
| "num_add (Num x) NegInf = NegInf"
| "num_add (Num x) (Num y) = Num (x + y)"

definition num_sub :: "number \<Rightarrow> number \<Rightarrow> number" where
  "num_sub a b = num_add a (num_neg b)"

fun num_mul :: "number \<Rightarrow> number \<Rightarrow> number" where
  "num_mul NaN _ = NaN"
| "num_mul _ NaN = NaN"
| "num_mul PosInf PosInf = PosInf"
| "num_mul PosInf NegInf = NegInf"
| "num_mul NegInf PosInf = NegInf"
| "num_mul NegInf NegInf = PosInf"
| "num_mul PosInf (Num y) = (if y = 0 then NaN else if y > 0 then PosInf else NegInf)"
| "num_mul NegInf (Num y) = (if y = 0 then NaN else if y > 0 then NegInf else PosInf)"
| "num_mul (Num x) PosInf = (if x = 0 then NaN else if x > 0 then PosInf else NegInf)"
| "num_mul (Num x) NegInf = (if x = 0 then NaN else if x > 0 then NegInf else PosInf)"
| "num_mul (Num x) (Num y) = Num (x * y)"

fun num_div :: "number \<Rightarrow> number \<Rightarrow> number" where
  "num_div NaN _ = NaN"
| "num_div _ NaN = NaN"
| "num_div PosInf PosInf = NaN"
| "num_div PosInf NegInf = NaN"
| "num_div NegInf PosInf = NaN"
| "num_div NegInf NegInf = NaN"
| "num_div PosInf (Num y) = (if y \<ge> 0 then PosInf else NegInf)"
| "num_div NegInf (Num y) = (if y \<ge> 0 then NegInf else PosInf)"
| "num_div (Num x) PosInf = Num 0"
| "num_div (Num x) NegInf = Num 0"
| "num_div (Num x) (Num y) =
     (if y = 0 then (if x = 0 then NaN else if x > 0 then PosInf else NegInf) else Num (x / y))"

fun num_less :: "number \<Rightarrow> number \<Rightarrow> bool" where
  "num_less NaN _ = False"
| "num_less _ NaN = False"
| "num_less PosInf _ = False"
| "num_less NegInf NegInf = False"
| "num_less NegInf _ = True"
| "num_less (Num x) PosInf = True"
| "num_less (Num x) NegInf = False"
| "num_less (Num x) (Num y) = (x < y)"

fun Math_log :: "number \<Rightarrow> number" where
  "Math_log NaN = NaN"
| "Math_log PosInf = PosInf"
| "Math_log NegInf = NaN"
| "Math_log (Num x) = (if x < 0 then NaN else if x = 0 then NegInf else Num (ln x))"

fun Math_exp :: "number \<Rightarrow> number" where
  "Math_exp NaN = NaN"
| "Math_exp PosInf = PosInf"
| "Math_exp NegInf = Num 0"
| "Math_exp (Num x) = Num (exp x)"

fun Math_abs :: "number \<Rightarrow> number" where
  "Math_abs NaN = NaN"
| "Math_abs PosInf = PosInf"
| "Math_abs NegInf = PosInf"
| "Math_abs (Num x) = Num \<bar>x\<bar>"

lemma num_add_NaN [simp]: "num_add x NaN = NaN"
  by (cases x) simp_all

lemma num_mul_NaN [simp]: "num_mul x NaN = NaN"
  by (cases x) simp_all

lemma num_div_NaN [simp]: "num_div x NaN = NaN"
  by (cases x) simp_all

lemma num_neg_neg [simp]: "num_neg (num_neg x) = x"
  by (cases x) simp_all


section \<open>Priority queue (queue.ts, class PriorityQueue)\<close>

text \<open>
  \<open>Comparator<T> = (a, b) => number | Promise<number>\<close>. A comparator may await an
  external capability and keep a cache, so it is a state-passing function: it takes the
  state of whatever it consults and returns the number with the new state. The queue
  only tests whether the number is less than zero, which \<open>NaN\<close> is not.
\<close>

type_synonym ('a, 's) Comparator = "'a \<Rightarrow> 'a \<Rightarrow> 's \<Rightarrow> number \<times> 's"

definition pure_cmp :: "('a \<Rightarrow> 'a \<Rightarrow> number) \<Rightarrow> ('a, 's) Comparator" where
  "pure_cmp f = (\<lambda>a b s. (f a b, s))"

definition swap :: "nat \<Rightarrow> nat \<Rightarrow> 'a list \<Rightarrow> 'a list" where
  "swap i j q = q[i := q ! j, j := q ! i]"

function siftUp :: "('a, 's) Comparator \<Rightarrow> nat \<Rightarrow> 'a list \<Rightarrow> 's \<Rightarrow> 'a list \<times> 's" where
  "siftUp cmp idx q s =
     (if idx > 0
      then (case cmp (q ! idx) (q ! ((idx - 1) div 2)) s of
              (c, s') \<Rightarrow>
                if num_less c (Num 0) then siftUp cmp ((idx - 1) div 2) (swap idx ((idx - 1) div 2) q) s'
                else (q, s'))
      else (q, s))"
  by pat_completeness auto
termination
  by (relation "measure (\<lambda>(cmp, idx, q, s). idx)") auto

declare siftUp.simps [simp del]

definition PriorityQueue_push ::
  "('a, 's) Comparator \<Rightarrow> 'a \<Rightarrow> 'a list \<Rightarrow> 's \<Rightarrow> 'a list \<times> 's" where
  "PriorityQueue_push cmp item q s = siftUp cmp (length (q @ [item]) - 1) (q @ [item]) s"

text \<open>
  One round of \<open>siftDown\<close> chooses \<open>min\<close> among \<open>idx\<close> and its two children, asking
  the comparator for the left child first.
\<close>

definition choose_min :: "('a, 's) Comparator \<Rightarrow> nat \<Rightarrow> 'a list \<Rightarrow> 's \<Rightarrow> nat \<times> 's" where
  "choose_min cmp idx q s =
     (case (if 2 * idx + 1 < length q
            then (case cmp (q ! (2 * idx + 1)) (q ! idx) s of
                    (c, s') \<Rightarrow> (if num_less c (Num 0) then 2 * idx + 1 else idx, s'))
            else (idx, s)) of
        (m, s1) \<Rightarrow>
          if 2 * idx + 2 < length q
          then (case cmp (q ! (2 * idx + 2)) (q ! m) s1 of
                  (c, s') \<Rightarrow> (if num_less c (Num 0) then 2 * idx + 2 else m, s'))
          else (m, s1))"

lemma choose_min_range:
  "choose_min cmp idx q s = (m, s') \<Longrightarrow> m = idx \<or> (idx < m \<and> m < length q)"
  by (auto simp: choose_min_def split: if_splits prod.splits)

function siftDown :: "('a, 's) Comparator \<Rightarrow> nat \<Rightarrow> 'a list \<Rightarrow> 's \<Rightarrow> 'a list \<times> 's" where
  "siftDown cmp idx q s =
     (case choose_min cmp idx q s of
        (m, s') \<Rightarrow> if m = idx then (q, s') else siftDown cmp m (swap idx m q) s')"
  by pat_completeness auto
termination
proof (relation "measure (\<lambda>(cmp, idx, q, s). length q - idx)", goal_cases)
  case 1
  show ?case by simp
next
  case (2 cmp idx q s m s')
  then have "choose_min cmp idx q s = (m, s')" by simp
  from choose_min_range[OF this] 2 show ?case by (auto simp: swap_def)
qed

declare siftDown.simps [simp del]

definition PriorityQueue_pop ::
  "('a, 's) Comparator \<Rightarrow> 'a list \<Rightarrow> 's \<Rightarrow> 'a option \<times> 'a list \<times> 's" where
  "PriorityQueue_pop cmp q s =
     (if q = [] then (None, q, s)
      else if butlast q \<noteq> []
        then (case siftDown cmp 0 ((butlast q)[0 := last q]) s of
                (q', s') \<Rightarrow> (Some (q ! 0), q', s'))
        else (Some (q ! 0), butlast q, s))"

definition PriorityQueue_peek :: "'a list \<Rightarrow> 'a option" where
  "PriorityQueue_peek q = (if q = [] then None else Some (q ! 0))"

lemma length_swap [simp]: "length (swap i j q) = length q"
  by (simp add: swap_def)

lemma mset_swap [simp]: "i < length q \<Longrightarrow> j < length q \<Longrightarrow> mset (swap i j q) = mset q"
  by (simp add: swap_def mset_swap)

lemma siftUp_length [simp]: "length (fst (siftUp cmp idx q s)) = length q"
proof (induction cmp idx q s rule: siftUp.induct)
  case (1 cmp idx q s)
  show ?case
    by (subst siftUp.simps) (use 1 in \<open>auto split: prod.splits\<close>)
qed

lemma siftUp_mset: "idx < length q \<Longrightarrow> mset (fst (siftUp cmp idx q s)) = mset q"
proof (induction cmp idx q s rule: siftUp.induct)
  case (1 cmp idx q s)
  have lt: "idx > 0 \<Longrightarrow> (idx - 1) div 2 < length q" using "1.prems" by simp
  show ?case
    by (subst siftUp.simps) (use 1 lt in \<open>auto split: prod.splits\<close>)
qed

lemma siftDown_length [simp]: "length (fst (siftDown cmp idx q s)) = length q"
proof (induction cmp idx q s rule: siftDown.induct)
  case (1 cmp idx q s)
  show ?case
    by (subst siftDown.simps) (use 1 in \<open>auto split: prod.splits\<close>)
qed

lemma siftDown_mset: "idx < length q \<Longrightarrow> mset (fst (siftDown cmp idx q s)) = mset q"
proof (induction cmp idx q s rule: siftDown.induct)
  case (1 cmp idx q s)
  show ?case
  proof (cases "choose_min cmp idx q s")
    case (Pair m s')
    show ?thesis
    proof (cases "m = idx")
      case True
      with Pair show ?thesis by (subst siftDown.simps) simp
    next
      case False
      with choose_min_range[OF Pair] have m: "idx < m" "m < length q" by auto
      from "1.IH"[OF Pair[symmetric] False] m "1.prems"
      have "mset (fst (siftDown cmp m (swap idx m q) s')) = mset q" by simp
      with Pair False show ?thesis by (subst siftDown.simps) simp
    qed
  qed
qed

lemma push_mset [simp]:
  "mset (fst (PriorityQueue_push cmp item q s)) = add_mset item (mset q)"
  by (simp add: PriorityQueue_push_def siftUp_mset)

lemma push_length [simp]:
  "length (fst (PriorityQueue_push cmp item q s)) = Suc (length q)"
  by (simp add: PriorityQueue_push_def)

lemma pop_empty [simp]: "PriorityQueue_pop cmp [] s = (None, [], s)"
  by (simp add: PriorityQueue_pop_def)

lemma pop_nonempty:
  assumes "q \<noteq> []"
  shows "\<exists>q' s'. PriorityQueue_pop cmp q s = (Some (q ! 0), q', s') \<and>
           add_mset (q ! 0) (mset q') = mset q \<and> Suc (length q') = length q"
proof -
  from assms obtain xs y where q: "q = xs @ [y]" by (cases q rule: rev_cases) auto
  show ?thesis
  proof (cases xs)
    case Nil
    then show ?thesis unfolding q by (simp add: PriorityQueue_pop_def)
  next
    case (Cons x xs')
    obtain q' s' where sd: "siftDown cmp 0 (y # xs') s = (q', s')"
      by (cases "siftDown cmp 0 (y # xs') s")
    have "mset q' = mset (y # xs')" using siftDown_mset[of 0 "y # xs'" cmp s] sd by simp
    moreover have "length q' = length (y # xs')"
      using siftDown_length[of cmp 0 "y # xs'" s] sd by simp
    ultimately show ?thesis unfolding q Cons using sd
      by (simp add: PriorityQueue_pop_def)
  qed
qed

subsection \<open>Topological sort (DAG.topoSort)\<close>

text \<open>
  \<open>indegree : Map<SplitString, number>\<close>. \<open>Map.set\<close> overwrites the value of a key
  in place and appends a new key at the end.
\<close>

fun map_set :: "'k \<Rightarrow> 'v \<Rightarrow> ('k \<times> 'v) list \<Rightarrow> ('k \<times> 'v) list" where
  "map_set k v [] = [(k, v)]"
| "map_set k v ((k', v') # m) =
     (if k' = k then (k', v) # m else (k', v') # map_set k v m)"

text \<open>The first loop: \<open>indegree.set(v, (indegree.get(v) ?? 0) + 1)\<close> for each successor.\<close>

fun count_successors :: "SplitString list \<Rightarrow> (SplitString \<times> int) list \<Rightarrow> (SplitString \<times> int) list" where
  "count_successors [] indegree = indegree"
| "count_successors (v # neighbors) indegree =
     count_successors neighbors
       (map_set v ((case map_of indegree v of None \<Rightarrow> 0 | Some d \<Rightarrow> d) + 1) indegree)"

fun indegrees :: "graph \<Rightarrow> (SplitString \<times> int) list \<Rightarrow> (SplitString \<times> int) list" where
  "indegrees [] indegree = indegree"
| "indegrees ((u, neighbors) # g) indegree =
     indegrees g
       (count_successors neighbors
          (if map_of indegree u = None then map_set u 0 indegree else indegree))"

text \<open>The second loop pushes the nodes of in-degree zero, in the order of the map.\<close>

fun push_sources ::
  "(SplitString, 's) Comparator \<Rightarrow> (SplitString \<times> int) list \<Rightarrow> SplitString list \<times> 's
     \<Rightarrow> SplitString list \<times> 's" where
  "push_sources tieBreaker [] st = st"
| "push_sources tieBreaker ((node, deg) # indegree) (pq, s) =
     (if deg = 0 then push_sources tieBreaker indegree (PriorityQueue_push tieBreaker node pq s)
      else push_sources tieBreaker indegree (pq, s))"

text \<open>
  The body of the main loop after the pop: every successor loses one in-degree and is
  pushed when it reaches zero. \<open>indegree.get(v)!\<close> of an absent key would make the
  degree \<open>NaN\<close> in the source; the model stops with \<open>None\<close> there. The first loop
  has entered every successor, so the case does not arise in \<open>topoSort\<close>.
\<close>

fun release ::
  "(SplitString, 's) Comparator \<Rightarrow> SplitString list
     \<Rightarrow> (SplitString \<times> int) list \<times> SplitString list \<times> 's
     \<Rightarrow> ((SplitString \<times> int) list \<times> SplitString list \<times> 's) option" where
  "release tieBreaker [] st = Some st"
| "release tieBreaker (v # neighbors) (indegree, pq, s) =
     (case map_of indegree v of
        None \<Rightarrow> None
      | Some d \<Rightarrow>
          if d - 1 = 0
          then (case PriorityQueue_push tieBreaker v pq s of
                  (pq', s') \<Rightarrow> release tieBreaker neighbors (map_set v (d - 1) indegree, pq', s'))
          else release tieBreaker neighbors (map_set v (d - 1) indegree, pq, s))"

definition positive :: "(SplitString \<times> int) list \<Rightarrow> nat" where
  "positive indegree = length (filter (\<lambda>(k, d). d \<ge> 1) indegree)"

lemma positive_map_set_same:
  "map_of m v = Some d \<Longrightarrow> d' \<le> d \<Longrightarrow> positive (map_set v d' m) \<le> positive m"
  by (induction m) (auto simp: positive_def)

lemma positive_map_set_zero:
  "map_of m v = Some 1 \<Longrightarrow> Suc (positive (map_set v 0 m)) \<le> positive m"
  by (induction m) (auto simp: positive_def)

lemma release_measure:
  "release tieBreaker neighbors (indegree, pq, s) = Some (indegree', pq', s') \<Longrightarrow>
     length pq' + positive indegree' \<le> length pq + positive indegree"
proof (induction neighbors arbitrary: indegree pq s)
  case Nil
  then show ?case by simp
next
  case (Cons v neighbors)
  from Cons.prems obtain d where d: "map_of indegree v = Some d"
    by (auto split: option.splits)
  show ?case
  proof (cases "d - 1 = 0")
    case True
    obtain pq1 s1 where p: "PriorityQueue_push tieBreaker v pq s = (pq1, s1)"
      by (cases "PriorityQueue_push tieBreaker v pq s")
    then have len: "length pq1 = Suc (length pq)"
      using push_length[of tieBreaker v pq s] by simp
    from Cons.prems d True p
    have "release tieBreaker neighbors (map_set v (d - 1) indegree, pq1, s1) = Some (indegree', pq', s')"
      by simp
    from Cons.IH[OF this] have "length pq' + positive indegree' \<le> length pq1 + positive (map_set v 0 indegree)"
      using True by simp
    moreover have "Suc (positive (map_set v 0 indegree)) \<le> positive indegree"
      using positive_map_set_zero[of indegree v] d True by simp
    ultimately show ?thesis using len by linarith
  next
    case False
    from Cons.prems d False
    have "release tieBreaker neighbors (map_set v (d - 1) indegree, pq, s) = Some (indegree', pq', s')"
      by simp
    from Cons.IH[OF this] positive_map_set_same[OF d, of "d - 1"]
    show ?thesis by simp
  qed
qed

lemma topoSort_loop_decreases:
  assumes "pq \<noteq> []" and "(Some u, y) = PriorityQueue_pop tieBreaker pq s"
    and "release tieBreaker neighbors (indegree, y) = Some st"
    and "(indegree', yb) = st" and "(pq', s') = yb"
  shows "length pq' + positive indegree' < length pq + positive indegree"
proof -
  obtain pq1 s1 where y: "y = (pq1, s1)" by (cases y)
  from pop_nonempty[OF assms(1), of tieBreaker s] assms(2) y
  have "Suc (length pq1) = length pq" by auto
  moreover have "release tieBreaker neighbors (indegree, pq1, s1) = Some (indegree', pq', s')"
    using assms(3,4,5) y by simp
  from release_measure[OF this]
  have "length pq' + positive indegree' \<le> length pq1 + positive indegree" .
  ultimately show ?thesis by simp
qed

text \<open>
  The main loop \<open>while (pq.length)\<close>. \<open>this.g.get(u)!\<close> of a node that is no key
  throws when it is iterated: the result \<open>None\<close>.
\<close>

function topoSort_loop ::
  "(SplitString, 's) Comparator \<Rightarrow> graph
     \<Rightarrow> (SplitString \<times> int) list \<Rightarrow> SplitString list \<Rightarrow> 's \<Rightarrow> SplitString list
     \<Rightarrow> (SplitString list \<times> 's) option" where
  "topoSort_loop tieBreaker g indegree pq s result =
     (if pq = [] then Some (result, s)
      else (case PriorityQueue_pop tieBreaker pq s of
              (None, pq1, s1) \<Rightarrow> None
            | (Some u, pq1, s1) \<Rightarrow>
                (case map_of g u of
                   None \<Rightarrow> None
                 | Some neighbors \<Rightarrow>
                     (case release tieBreaker neighbors (indegree, pq1, s1) of
                        None \<Rightarrow> None
                      | Some (indegree', pq', s') \<Rightarrow>
                          topoSort_loop tieBreaker g indegree' pq' s' (result @ [u])))))"
  by pat_completeness auto
termination
  apply (relation "measure (\<lambda>(tieBreaker, g, indegree, pq, s, result). length pq + positive indegree)")
   apply simp
  apply simp
  apply (rule topoSort_loop_decreases; assumption)
  done

declare topoSort_loop.simps [simp del]

definition topoSort ::
  "(SplitString, 's) Comparator \<Rightarrow> graph \<Rightarrow> 's \<Rightarrow> (SplitString list \<times> 's) option" where
  "topoSort tieBreaker g s =
     (case push_sources tieBreaker (indegrees g []) ([], s) of
        (pq, s') \<Rightarrow> topoSort_loop tieBreaker g (indegrees g []) pq s' [])"

subsection \<open>The in-degree map\<close>

lemma map_of_map_set [simp]: "map_of (map_set k v m) = (map_of m)(k \<mapsto> v)"
  by (induction m) (auto simp: fun_eq_iff)

lemma fst_set_map_set [simp]: "fst ` set (map_set k v m) = insert k (fst ` set m)"
proof (induction m)
  case Nil
  show ?case by simp
next
  case (Cons p m)
  obtain k' v' where p: "p = (k', v')" by (cases p)
  show ?case
  proof (cases "k' = k")
    case True
    with p show ?thesis by simp
  next
    case False
    with p Cons show ?thesis by auto
  qed
qed

lemma keys_map_set:
  "map fst (map_set k v m) = (if k \<in> fst ` set m then map fst m else map fst m @ [k])"
proof (induction m)
  case Nil
  show ?case by simp
next
  case (Cons p m)
  obtain k' v' where p: "p = (k', v')" by (cases p)
  show ?case
  proof (cases "k' = k")
    case True
    with p show ?thesis by simp
  next
    case False
    with p Cons show ?thesis by simp
  qed
qed

lemma distinct_map_set [simp]: "distinct (map fst (map_set k v m)) = distinct (map fst m)"
  by (simp add: keys_map_set)

lemma map_set_present:
  "k \<in> fst ` set m \<Longrightarrow> map fst (map_set k v m) = map fst m"
  by (simp add: keys_map_set)

lemma count_successors_distinct [simp]:
  "distinct (map fst (count_successors ns ind)) = distinct (map fst ind)"
  by (induction ns arbitrary: ind) auto

lemma count_successors_keys [simp]:
  "fst ` set (count_successors ns ind) = set ns \<union> fst ` set ind"
  by (induction ns arbitrary: ind) auto

lemma count_successors_map_of:
  "distinct ns \<Longrightarrow> map_of (count_successors ns ind) v =
     (if v \<in> set ns then Some ((case map_of ind v of None \<Rightarrow> 0 | Some d \<Rightarrow> d) + 1)
      else map_of ind v)"
  by (induction ns arbitrary: ind) auto

definition in_lists :: "SplitString \<Rightarrow> graph \<Rightarrow> nat" where
  "in_lists v gl = length (filter (\<lambda>(u, ns). v \<in> set ns) gl)"

lemma in_lists_simps [simp]:
  "in_lists v [] = 0"
  "in_lists v ((u, ns) # gl) = (if v \<in> set ns then Suc (in_lists v gl) else in_lists v gl)"
  by (simp_all add: in_lists_def)

lemma indegrees_distinct [simp]:
  "distinct (map fst (indegrees gl ind)) = distinct (map fst ind)"
  by (induction gl ind rule: indegrees.induct) auto

lemma indegrees_keys:
  "fst ` set (indegrees gl ind) = fst ` set gl \<union> (\<Union>(u, ns) \<in> set gl. set ns) \<union> fst ` set ind"
  by (induction gl ind rule: indegrees.induct) (auto simp: map_of_eq_None_iff)

lemma indegrees_map_of:
  assumes "\<forall>(u, ns) \<in> set gl. distinct ns" and "v \<in> fst ` set (indegrees gl ind)"
  shows "map_of (indegrees gl ind) v =
           Some ((case map_of ind v of None \<Rightarrow> 0 | Some d \<Rightarrow> d) + int (in_lists v gl))"
  using assms
proof (induction gl ind rule: indegrees.induct)
  case (1 ind)
  then have "map_of ind v \<noteq> None" by (simp add: map_of_eq_None_iff)
  then show ?case by auto
next
  case (2 u ns gl ind)
  let ?ind0 = "if map_of ind u = None then map_set u 0 ind else ind"
  let ?ind1 = "count_successors ns ?ind0"
  have d: "distinct ns" using "2.prems"(1) by simp
  have ih: "map_of (indegrees gl ?ind1) v =
           Some ((case map_of ?ind1 v of None \<Rightarrow> 0 | Some d \<Rightarrow> d) + int (in_lists v gl))"
    by (rule "2.IH") (use "2.prems" in auto)
  have "(case map_of ?ind1 v of None \<Rightarrow> 0 | Some d \<Rightarrow> d) =
        (case map_of ind v of None \<Rightarrow> 0 | Some d \<Rightarrow> d) + (if v \<in> set ns then 1 else 0)"
    by (auto simp: count_successors_map_of[OF d] split: option.splits)
  with ih show ?case by simp
qed

lemma in_lists_card:
  assumes "distinct (keys g)"
  shows "in_lists v g = card {u. (u, v) \<in> edges g}"
proof -
  let ?f = "filter (\<lambda>(u, ns). v \<in> set ns) g"
  have dist: "distinct (map fst ?f)" using assms by (simp add: keys_def distinct_map_filter)
  have "fst ` set ?f = {u. (u, v) \<in> edges g}"
  proof (intro set_eqI iffI)
    fix u assume "u \<in> fst ` set ?f"
    then obtain ns where "(u, ns) \<in> set g" "v \<in> set ns" by auto
    then show "u \<in> {u. (u, v) \<in> edges g}"
      using assms by (auto simp: edges_iff keys_def)
  next
    fix u assume "u \<in> {u. (u, v) \<in> edges g}"
    then obtain ns where "map_of g u = Some ns" "v \<in> set ns" by (auto simp: edges_iff)
    then have "(u, ns) \<in> set ?f" by (auto dest: map_of_SomeD)
    then show "u \<in> fst ` set ?f" by (rule rev_image_eqI) simp
  qed
  then have "card {u. (u, v) \<in> edges g} = card (set (map fst ?f))" by simp
  also have "\<dots> = length (map fst ?f)" using dist by (rule distinct_card)
  finally show ?thesis by (simp add: in_lists_def)
qed

lemma wf_graph_indegrees:
  assumes "wf_graph g"
  shows "distinct (map fst (indegrees g []))"
    and "fst ` set (indegrees g []) = set (keys g)"
    and "v \<in> set (keys g) \<Longrightarrow>
           map_of (indegrees g []) v = Some (int (card {u. (u, v) \<in> edges g}))"
proof -
  show "distinct (map fst (indegrees g []))" by simp
  show k: "fst ` set (indegrees g []) = set (keys g)"
    using assms unfolding indegrees_keys by (auto simp: wf_graph_def keys_def)
  assume "v \<in> set (keys g)"
  with k have "v \<in> fst ` set (indegrees g [])" by simp
  moreover have "\<forall>(u, ns) \<in> set g. distinct ns" using assms by (auto simp: wf_graph_def)
  ultimately have "map_of (indegrees g []) v = Some (0 + int (in_lists v g))"
    using indegrees_map_of[of g v "[]"] by simp
  then show "map_of (indegrees g []) v = Some (int (card {u. (u, v) \<in> edges g}))"
    using in_lists_card[of g v] assms by (simp add: wf_graph_def)
qed

lemma push_sources_mset:
  "mset (fst (push_sources tieBreaker ind (pq, s))) =
     mset pq + mset (map fst (filter (\<lambda>(k, d). d = 0) ind))"
proof (induction ind arbitrary: pq s)
  case Nil
  then show ?case by simp
next
  case (Cons p ind)
  obtain node deg where p: "p = (node, deg)" by (cases p)
  show ?case
  proof (cases "deg = 0")
    case True
    obtain pq1 s1 where ps: "PriorityQueue_push tieBreaker node pq s = (pq1, s1)"
      by (cases "PriorityQueue_push tieBreaker node pq s")
    then have "mset pq1 = add_mset node (mset pq)"
      using push_mset[of tieBreaker node pq s] by simp
    with Cons.IH[of pq1 s1] p True ps show ?thesis by simp
  next
    case False
    with Cons.IH[of pq s] p show ?thesis by simp
  qed
qed

subsection \<open>Kahn's algorithm emits every node, predecessors first\<close>

definition precedes :: "'a \<Rightarrow> 'a \<Rightarrow> 'a list \<Rightarrow> bool" where
  "precedes u v xs \<longleftrightarrow> (\<exists>i j. i < j \<and> j < length xs \<and> xs ! i = u \<and> xs ! j = v)"

lemma precedes_append: "precedes u v xs \<Longrightarrow> precedes u v (xs @ ys)"
  unfolding precedes_def
  by (metis (no_types, lifting) length_append nth_append order_less_trans trans_less_add1)

lemma precedes_snoc: "u \<in> set xs \<Longrightarrow> precedes u v (xs @ [v])"
proof -
  assume "u \<in> set xs"
  then obtain i where "i < length xs" "xs ! i = u" by (auto simp: in_set_conv_nth)
  then have "i < length xs \<and> length xs < length (xs @ [v]) \<and> (xs @ [v]) ! i = u \<and>
               (xs @ [v]) ! length xs = v"
    by (simp add: nth_append)
  then show ?thesis unfolding precedes_def by blast
qed

lemma precedes_in_set: "precedes u v xs \<Longrightarrow> u \<in> set xs \<and> v \<in> set xs"
  unfolding precedes_def by (metis nth_mem order_less_trans)

lemma release_spec:
  assumes "distinct vs" and "set vs \<subseteq> fst ` set ind"
  shows "\<exists>ind' pq' s'. release tieBreaker vs (ind, pq, s) = Some (ind', pq', s') \<and>
           map fst ind' = map fst ind \<and>
           (\<forall>k. map_of ind' k = (if k \<in> set vs then map_option (\<lambda>d. d - 1) (map_of ind k)
                                  else map_of ind k)) \<and>
           mset pq' = mset pq + mset (filter (\<lambda>v. map_of ind v = Some 1) vs)"
  using assms
proof (induction vs arbitrary: ind pq s)
  case Nil
  then show ?case by simp
next
  case (Cons v vs)
  have v_in: "v \<in> fst ` set ind" and v_notin: "v \<notin> set vs" and dvs: "distinct vs"
    using Cons.prems by auto
  then obtain d where d: "map_of ind v = Some d"
    by (metis map_of_eq_None_iff not_None_eq)
  let ?ind1 = "map_set v (d - 1) ind"
  have k1: "map fst ?ind1 = map fst ind" using v_in by (rule map_set_present)
  have sub1: "set vs \<subseteq> fst ` set ?ind1" using Cons.prems(2) by auto
  have m1: "\<And>k. k \<noteq> v \<Longrightarrow> map_of ?ind1 k = map_of ind k" by simp
  have filt: "filter (\<lambda>w. map_of ?ind1 w = Some 1) vs = filter (\<lambda>w. map_of ind w = Some 1) vs"
    by (rule filter_cong[OF refl]) (use v_notin in auto)
  obtain pq1 s1 where step: "(pq1, s1) = (if d - 1 = 0 then PriorityQueue_push tieBreaker v pq s else (pq, s))"
    by (metis surj_pair)
  have ms1: "mset pq1 = mset pq + mset (filter (\<lambda>w. map_of ind w = Some 1) [v])"
  proof (cases "d - 1 = 0")
    case True
    then have "pq1 = fst (PriorityQueue_push tieBreaker v pq s)" using step by (metis fst_conv)
    moreover from True have "d = 1" by simp
    ultimately show ?thesis using d by simp
  next
    case False
    then have "pq1 = pq" "d \<noteq> 1" using step by auto
    then show ?thesis using d by simp
  qed
  have unf: "release tieBreaker (v # vs) (ind, pq, s) = release tieBreaker vs (?ind1, pq1, s1)"
  proof (cases "d - 1 = 0")
    case True
    with step have "PriorityQueue_push tieBreaker v pq s = (pq1, s1)" by simp
    with d True show ?thesis by simp
  next
    case False
    with step have "pq1 = pq" "s1 = s" by auto
    with d False show ?thesis by simp
  qed
  from Cons.IH[OF dvs sub1, of pq1 s1]
  obtain ind' pq' s' where r: "release tieBreaker vs (?ind1, pq1, s1) = Some (ind', pq', s')"
    "map fst ind' = map fst ?ind1"
    "\<forall>k. map_of ind' k = (if k \<in> set vs then map_option (\<lambda>d. d - 1) (map_of ?ind1 k)
                          else map_of ?ind1 k)"
    "mset pq' = mset pq1 + mset (filter (\<lambda>w. map_of ?ind1 w = Some 1) vs)" by blast
  have a: "release tieBreaker (v # vs) (ind, pq, s) = Some (ind', pq', s')"
    using unf r(1) by simp
  have b: "map fst ind' = map fst ind" using r(2) k1 by simp
  have c: "\<forall>k. map_of ind' k = (if k \<in> set (v # vs) then map_option (\<lambda>d. d - 1) (map_of ind k)
                                  else map_of ind k)"
  proof
    fix k
    show "map_of ind' k = (if k \<in> set (v # vs) then map_option (\<lambda>d. d - 1) (map_of ind k)
                                  else map_of ind k)"
    proof (cases "k = v")
      case True
      with r(3) v_notin d show ?thesis by simp
    next
      case False
      with r(3) m1[OF False] show ?thesis by simp
    qed
  qed
  have e: "mset pq' = mset pq + mset (filter (\<lambda>w. map_of ind w = Some 1) (v # vs))"
  proof -
    have "mset pq' = mset pq1 + mset (filter (\<lambda>w. map_of ind w = Some 1) vs)"
      using r(4) unfolding filt .
    also have "\<dots> = mset pq + (mset (filter (\<lambda>w. map_of ind w = Some 1) [v]) +
                   mset (filter (\<lambda>w. map_of ind w = Some 1) vs))"
      unfolding ms1 by (simp only: add.assoc)
    also have "mset (filter (\<lambda>w. map_of ind w = Some 1) [v]) +
                   mset (filter (\<lambda>w. map_of ind w = Some 1) vs) =
               mset (filter (\<lambda>w. map_of ind w = Some 1) (v # vs))"
      by simp
    finally show ?thesis .
  qed
  from a b c e show ?case by blast
qed

definition kahn_inv ::
  "graph \<Rightarrow> (SplitString \<times> int) list \<Rightarrow> SplitString list \<Rightarrow> SplitString list \<Rightarrow> bool" where
  "kahn_inv g ind pq result \<longleftrightarrow>
     distinct (map fst ind) \<and> fst ` set ind = set (keys g) \<and>
     (\<forall>v \<in> set (keys g).
        map_of ind v = Some (int (card {u. (u, v) \<in> edges g \<and> u \<notin> set result}))) \<and>
     distinct (result @ pq) \<and>
     set pq = {v \<in> set (keys g). v \<notin> set result \<and> (\<forall>u. (u, v) \<in> edges g \<longrightarrow> u \<in> set result)} \<and>
     set result \<subseteq> set (keys g) \<and>
     (\<forall>u v. (u, v) \<in> edges g \<longrightarrow> v \<in> set result \<longrightarrow> precedes u v result)"

lemma edges_Domain: "(u, v) \<in> edges g \<Longrightarrow> u \<in> set (keys g)"
  by (auto simp: edges_iff keys_def dest!: map_of_SomeD intro: rev_image_eqI)

lemma finite_preds: "finite {u. (u, v) \<in> edges g \<and> P u}"
  by (rule finite_subset[of _ "set (keys g)"]) (auto dest: edges_Domain)

lemma kahn_step:
  assumes wf: "wf_graph g" and inv: "kahn_inv g ind pq result" and ne: "pq \<noteq> []"
  shows "\<exists>u pq1 s1 ns ind' pq' s'.
           PriorityQueue_pop tieBreaker pq s = (Some u, pq1, s1) \<and> map_of g u = Some ns \<and>
           release tieBreaker ns (ind, pq1, s1) = Some (ind', pq', s') \<and>
           kahn_inv g ind' pq' (result @ [u])"
proof -
  let ?E = "edges g" and ?K = "set (keys g)"
  from inv have i1: "distinct (map fst ind)" and i2: "fst ` set ind = ?K"
    and i3: "\<forall>v \<in> ?K. map_of ind v = Some (int (card {u. (u, v) \<in> ?E \<and> u \<notin> set result}))"
    and i4: "distinct (result @ pq)"
    and i5: "set pq = {v \<in> ?K. v \<notin> set result \<and> (\<forall>u. (u, v) \<in> ?E \<longrightarrow> u \<in> set result)}"
    and i6: "set result \<subseteq> ?K"
    and i7: "\<forall>u v. (u, v) \<in> ?E \<longrightarrow> v \<in> set result \<longrightarrow> precedes u v result"
    unfolding kahn_inv_def by blast+
  define u where "u = pq ! 0"
  from pop_nonempty[OF ne, of tieBreaker s]
  obtain pq1 s1 where pop: "PriorityQueue_pop tieBreaker pq s = (Some u, pq1, s1)"
    and ms: "add_mset u (mset pq1) = mset pq" unfolding u_def by blast
  have u_pq: "u \<in> set pq" using ne unfolding u_def by simp
  have set1: "set pq = insert u (set pq1)" using ms by (metis set_mset_add_mset_insert set_mset_mset)
  have d1: "distinct (u # pq1)" using i4 ms by (metis distinct_append mset.simps(2) mset_eq_imp_distinct_iff)
  have u_key: "u \<in> ?K" and u_new: "u \<notin> set result"
    and u_preds: "\<And>w. (w, u) \<in> ?E \<Longrightarrow> w \<in> set result"
    using u_pq i5 by auto
  obtain ns where ns: "map_of g u = Some ns" using map_of_keys[OF u_key] by blast
  have ns_keys: "set ns \<subseteq> ?K" by (rule wf_graph_succ_keys[OF wf ns])
  have ns_dist: "distinct ns" using wf ns by (auto simp: wf_graph_def dest!: map_of_SomeD)
  have ns_edge: "\<And>v. v \<in> set ns \<longleftrightarrow> (u, v) \<in> ?E" using ns by (auto simp: edges_iff)
  from release_spec[OF ns_dist, of ind tieBreaker pq1 s1] ns_keys i2
  obtain ind' pq' s' where rel: "release tieBreaker ns (ind, pq1, s1) = Some (ind', pq', s')"
    and k': "map fst ind' = map fst ind"
    and m': "\<And>k. map_of ind' k = (if k \<in> set ns then map_option (\<lambda>d. d - 1) (map_of ind k)
                                  else map_of ind k)"
    and q': "mset pq' = mset pq1 + mset (filter (\<lambda>v. map_of ind v = Some 1) ns)"
    by blast
  let ?res = "result @ [u]"
  let ?old = "\<lambda>v. {w. (w, v) \<in> ?E \<and> w \<notin> set result}"
  let ?new = "\<lambda>v. {w. (w, v) \<in> ?E \<and> w \<notin> set ?res}"
  have new_succ: "?new v = ?old v - {u}" for v by auto
  have card_succ: "int (card (?new v)) = int (card (?old v)) - 1" if "v \<in> set ns" for v
  proof -
    have "u \<in> ?old v" using that ns_edge u_new by simp
    moreover have "finite (?old v)" by (rule finite_preds)
    ultimately have "card (?old v - {u}) = card (?old v) - 1" and "card (?old v) > 0"
      by (simp, metis card_gt_0_iff empty_iff)
    then show ?thesis unfolding new_succ by simp
  qed
  have same_other: "?new v = ?old v" if "v \<notin> set ns" for v
    using that ns_edge by auto
  have j3: "\<forall>v \<in> ?K. map_of ind' v = Some (int (card (?new v)))"
  proof
    fix v assume v: "v \<in> ?K"
    show "map_of ind' v = Some (int (card (?new v)))"
    proof (cases "v \<in> set ns")
      case True
      then show ?thesis using m'[of v] i3 v card_succ[OF True] by simp
    next
      case False
      then show ?thesis using m'[of v] i3 v same_other[OF False] by simp
    qed
  qed
  let ?fresh = "filter (\<lambda>v. map_of ind v = Some 1) ns"
  have fresh_iff: "v \<in> set ?fresh \<longleftrightarrow> (u, v) \<in> ?E \<and> card (?old v) = 1" for v
  proof (cases "v \<in> set ns")
    case True
    then have "v \<in> ?K" using ns_keys by blast
    with i3 have "map_of ind v = Some (int (card (?old v)))" by blast
    with True ns_edge[of v] show ?thesis by simp
  next
    case False
    with ns_edge[of v] show ?thesis by simp
  qed
  have fresh_only_u: "?old v = {u}" if "v \<in> set ?fresh" for v
  proof -
    from that fresh_iff have e: "(u, v) \<in> ?E" and c: "card (?old v) = 1" by auto
    from c obtain x where x: "?old v = {x}" by (auto simp: card_1_singleton_iff)
    have "u \<in> ?old v" using e u_new by simp
    with x show ?thesis by auto
  qed
  have fresh_not_res: "v \<notin> set ?res" if "v \<in> set ?fresh" for v
  proof
    assume "v \<in> set ?res"
    from that fresh_iff have e: "(u, v) \<in> ?E" by auto
    from u_preds e have "v \<noteq> u" using u_new by blast
    with \<open>v \<in> set ?res\<close> have "v \<in> set result" by simp
    with i7 e have "precedes u v result" by blast
    then have "u \<in> set result" by (simp add: precedes_in_set)
    with u_new show False by simp
  qed
  have fresh_not_pq: "v \<notin> set pq" if "v \<in> set ?fresh" for v
  proof
    assume "v \<in> set pq"
    from that fresh_iff have e: "(u, v) \<in> ?E" by auto
    with \<open>v \<in> set pq\<close> i5 have "u \<in> set result" by blast
    with u_new show False by simp
  qed
  have set_pq': "set pq' = set pq1 \<union> set ?fresh"
    using q' by (metis set_mset_mset set_mset_union)
  have j4: "distinct (?res @ pq')"
  proof -
    have "distinct (pq1 @ ?fresh)"
      using d1 ns_dist fresh_not_pq set1 by auto
    then have "distinct pq'" using q' by (metis mset_append mset_eq_imp_distinct_iff)
    moreover have "distinct ?res" using i4 u_new by simp
    moreover have "set ?res \<inter> set pq' = {}"
    proof -
      have "set result \<inter> set pq1 = {}" using i4 set1 by auto
      moreover have "u \<notin> set pq1" using d1 by simp
      moreover have "set ?res \<inter> set ?fresh = {}" using fresh_not_res by blast
      ultimately show ?thesis unfolding set_pq' by auto
    qed
    ultimately show ?thesis by simp
  qed
  have j5: "set pq' = {v \<in> ?K. v \<notin> set ?res \<and> (\<forall>w. (w, v) \<in> ?E \<longrightarrow> w \<in> set ?res)}"
  proof (intro set_eqI iffI)
    fix v assume "v \<in> set pq'"
    then consider "v \<in> set pq1" | "v \<in> set ?fresh" unfolding set_pq' by blast
    then show "v \<in> {v \<in> ?K. v \<notin> set ?res \<and> (\<forall>w. (w, v) \<in> ?E \<longrightarrow> w \<in> set ?res)}"
    proof cases
      case 1
      then have "v \<in> set pq" "v \<noteq> u" using set1 d1 by auto
      with i5 show ?thesis by auto
    next
      case 2
      then have "v \<in> ?K" using ns_keys by auto
      moreover have "v \<notin> set ?res" by (rule fresh_not_res[OF 2])
      moreover have "\<forall>w. (w, v) \<in> ?E \<longrightarrow> w \<in> set ?res"
        using fresh_only_u[OF 2] by auto
      ultimately show ?thesis by blast
    qed
  next
    fix v assume "v \<in> {v \<in> ?K. v \<notin> set ?res \<and> (\<forall>w. (w, v) \<in> ?E \<longrightarrow> w \<in> set ?res)}"
    then have v: "v \<in> ?K" "v \<notin> set result" "v \<noteq> u"
      and p: "\<And>w. (w, v) \<in> ?E \<Longrightarrow> w \<in> set result \<or> w = u" by auto
    show "v \<in> set pq'"
    proof (cases "\<forall>w. (w, v) \<in> ?E \<longrightarrow> w \<in> set result")
      case True
      with v i5 have "v \<in> set pq" by blast
      with v(3) set1 show ?thesis unfolding set_pq' by blast
    next
      case False
      then obtain w where w: "(w, v) \<in> ?E" "w \<notin> set result" by blast
      with p have "w = u" by blast
      have "?old v = {u}" using p w \<open>w = u\<close> by auto
      then have "card (?old v) = 1" by simp
      with w \<open>w = u\<close> fresh_iff[of v] show ?thesis unfolding set_pq' by blast
    qed
  qed
  have j6: "set ?res \<subseteq> ?K" using i6 u_key by simp
  have j7: "\<forall>a b. (a, b) \<in> ?E \<longrightarrow> b \<in> set ?res \<longrightarrow> precedes a b ?res"
  proof (intro allI impI)
    fix a b assume e: "(a, b) \<in> ?E" and b: "b \<in> set ?res"
    show "precedes a b ?res"
    proof (cases "b \<in> set result")
      case True
      with i7 e have "precedes a b result" by blast
      then show ?thesis by (rule precedes_append)
    next
      case False
      with b have "b = u" by simp
      with e u_preds have "a \<in> set result" by blast
      then show ?thesis unfolding \<open>b = u\<close> by (rule precedes_snoc)
    qed
  qed
  have "kahn_inv g ind' pq' ?res"
    unfolding kahn_inv_def using i1 i2 k' j3 j4 j5 j6 j7
    by (metis (no_types, lifting) list.set_map)
  with pop ns rel show ?thesis by blast
qed

lemma edges_finite: "wf_graph g \<Longrightarrow> finite (edges g)"
proof -
  assume wf: "wf_graph g"
  have "edges g \<subseteq> set (keys g) \<times> set (keys g)"
  proof
    fix p assume p: "p \<in> edges g"
    obtain a b where ab: "p = (a, b)" by (cases p)
    with p obtain ns where "map_of g a = Some ns" "b \<in> set ns" by (auto simp: edges_iff)
    with wf_graph_succ_keys[OF wf] have "b \<in> set (keys g)" by blast
    moreover have "a \<in> set (keys g)" using p ab edges_Domain by blast
    ultimately show "p \<in> set (keys g) \<times> set (keys g)" using ab by simp
  qed
  then show ?thesis by (rule finite_subset) simp
qed

lemma kahn_done:
  assumes wf: "wf_graph g" and ac: "acyclic (edges g)" and inv: "kahn_inv g ind [] result"
  shows "set result = set (keys g)"
proof (rule ccontr)
  assume neq: "set result \<noteq> set (keys g)"
  from inv have i5: "{v \<in> set (keys g). v \<notin> set result \<and> (\<forall>u. (u, v) \<in> edges g \<longrightarrow> u \<in> set result)} = {}"
    and i6: "set result \<subseteq> set (keys g)"
    unfolding kahn_inv_def by auto
  from neq i6 obtain x where x: "x \<in> set (keys g) - set result" by blast
  have "wf (edges g)" using finite_acyclic_wf[OF edges_finite[OF wf] ac] .
  from wfE_min[OF this x] obtain z where z: "z \<in> set (keys g) - set result"
    and zmin: "\<And>y. (y, z) \<in> edges g \<Longrightarrow> y \<notin> set (keys g) - set result" by blast
  have "\<forall>u. (u, z) \<in> edges g \<longrightarrow> u \<in> set result"
    using zmin edges_Domain by blast
  with z have "z \<in> {v \<in> set (keys g). v \<notin> set result \<and> (\<forall>u. (u, v) \<in> edges g \<longrightarrow> u \<in> set result)}"
    by blast
  with i5 show False by blast
qed

lemma topoSort_loop_correct:
  assumes "wf_graph g" and "acyclic (edges g)" and "kahn_inv g ind pq result"
  shows "\<exists>res s'. topoSort_loop tieBreaker g ind pq s result = Some (res, s') \<and>
           distinct res \<and> set res = set (keys g) \<and>
           (\<forall>u v. (u, v) \<in> edges g \<longrightarrow> precedes u v res)"
  using assms
proof (induction tieBreaker g ind pq s result rule: topoSort_loop.induct)
  case (1 tieBreaker g ind pq s result)
  note wf = "1.prems"(1) and ac = "1.prems"(2) and inv = "1.prems"(3)
  show ?case
  proof (cases "pq = []")
    case True
    have all: "set result = set (keys g)" using kahn_done[OF wf ac] inv True by blast
    from inv have "distinct result"
      and ord: "\<forall>u v. (u, v) \<in> edges g \<longrightarrow> v \<in> set result \<longrightarrow> precedes u v result"
      unfolding kahn_inv_def by auto
    moreover have "\<forall>u v. (u, v) \<in> edges g \<longrightarrow> precedes u v result"
    proof (intro allI impI)
      fix u v assume e: "(u, v) \<in> edges g"
      then have "v \<in> set (keys g)" using wf_graph_succ_keys[OF wf] by (auto simp: edges_iff)
      with all ord e show "precedes u v result" by blast
    qed
    moreover have "topoSort_loop tieBreaker g ind pq s result = Some (result, s)"
      using True by (subst topoSort_loop.simps) simp
    ultimately show ?thesis using all by blast
  next
    case False
    from kahn_step[OF wf inv False, of tieBreaker s]
    obtain u pq1 s1 ns ind' pq' s' where
      pop: "PriorityQueue_pop tieBreaker pq s = (Some u, pq1, s1)"
      and ns: "map_of g u = Some ns"
      and rel: "release tieBreaker ns (ind, pq1, s1) = Some (ind', pq', s')"
      and inv': "kahn_inv g ind' pq' (result @ [u])" by blast
    have "\<exists>res s''. topoSort_loop tieBreaker g ind' pq' s' (result @ [u]) = Some (res, s'') \<and>
           distinct res \<and> set res = set (keys g) \<and>
           (\<forall>u v. (u, v) \<in> edges g \<longrightarrow> precedes u v res)"
      by (rule "1.IH"[OF False pop[symmetric] refl refl ns rel refl refl wf ac inv'])
    moreover have "topoSort_loop tieBreaker g ind pq s result =
                   topoSort_loop tieBreaker g ind' pq' s' (result @ [u])"
      using False pop ns rel by (subst topoSort_loop.simps) simp
    ultimately show ?thesis by simp
  qed
qed

lemma kahn_inv_initial:
  assumes wf: "wf_graph g"
  shows "kahn_inv g (indegrees g []) (fst (push_sources tieBreaker (indegrees g []) ([], s))) []"
proof -
  let ?ind = "indegrees g []"
  let ?pq = "fst (push_sources tieBreaker ?ind ([], s))"
  let ?zero = "map fst (filter (\<lambda>(k, d). d = 0) ?ind)"
  note ind = wf_graph_indegrees[OF wf]
  have ms: "mset ?pq = mset ?zero" using push_sources_mset[of tieBreaker ?ind "[]" s] by simp
  have "distinct ?zero" using ind(1) by (rule distinct_map_filter)
  then have d: "distinct ?pq" using ms by (metis mset_eq_imp_distinct_iff)
  have zero_iff: "v \<in> set ?zero \<longleftrightarrow> map_of ?ind v = Some 0" for v
  proof
    assume "v \<in> set ?zero"
    then have "(v, 0) \<in> set ?ind" by auto
    then show "map_of ?ind v = Some 0" using ind(1) by simp
  next
    assume "map_of ?ind v = Some 0"
    then have "(v, 0) \<in> set (filter (\<lambda>(k, d). d = 0) ?ind)" by (auto dest: map_of_SomeD)
    then show "v \<in> set ?zero" by (metis fst_conv image_eqI set_map)
  qed
  have sp: "set ?pq = {v \<in> set (keys g). \<forall>u. (u, v) \<notin> edges g}"
  proof (intro set_eqI iffI)
    fix v assume "v \<in> set ?pq"
    then have "v \<in> set ?zero" using ms by (metis set_mset_mset)
    then have z: "map_of ?ind v = Some 0" using zero_iff by simp
    then have vk: "v \<in> set (keys g)" using ind(2) by (metis map_of_eq_None_iff option.distinct(1))
    from ind(3)[OF vk] z have "card {u. (u, v) \<in> edges g} = 0" by simp
    moreover have "finite {u. (u, v) \<in> edges g}" using finite_preds[of v g "\<lambda>_. True"] by simp
    ultimately have "{u. (u, v) \<in> edges g} = {}" by simp
    with vk show "v \<in> {v \<in> set (keys g). \<forall>u. (u, v) \<notin> edges g}" by blast
  next
    fix v assume "v \<in> {v \<in> set (keys g). \<forall>u. (u, v) \<notin> edges g}"
    then have vk: "v \<in> set (keys g)" and "{u. (u, v) \<in> edges g} = {}" by auto
    with ind(3)[OF vk] have "map_of ?ind v = Some 0" by simp
    then have "v \<in> set ?zero" using zero_iff by simp
    then show "v \<in> set ?pq" using ms by (metis set_mset_mset)
  qed
  show ?thesis
    unfolding kahn_inv_def using ind d sp by simp
qed

lemma topoSort_correct:
  assumes "wf_graph g" and "acyclic (edges g)"
  shows "\<exists>res s'. topoSort tieBreaker g s = Some (res, s') \<and>
           distinct res \<and> set res = set (keys g) \<and>
           (\<forall>u v. (u, v) \<in> edges g \<longrightarrow> precedes u v res)"
proof -
  obtain pq s0 where ps: "push_sources tieBreaker (indegrees g []) ([], s) = (pq, s0)"
    by (cases "push_sources tieBreaker (indegrees g []) ([], s)")
  have "kahn_inv g (indegrees g []) pq []"
    using kahn_inv_initial[OF assms(1), of tieBreaker s] ps by simp
  from topoSort_loop_correct[OF assms this, of tieBreaker s0] ps
  show ?thesis by (simp add: topoSort_def)
qed

text \<open>
  Claim C3. For the graph that the constructor and any sequence of \<open>addEdges\<close> calls
  build, and for every tie-breaker (whatever it answers and whatever state it keeps),
  \<open>topoSort\<close> returns a list in which every node of the constructor's node set
  appears exactly once, isolated nodes included, and in which \<open>u\<close> precedes \<open>v\<close> for
  every edge \<open>u \<rightarrow> v\<close> of the graph.
\<close>

theorem topoSort_permutation_and_order:
  "\<exists>g. addEdges_all (DAG verts) hints = Some g \<and>
     (\<exists>res s'. topoSort tieBreaker g s = Some (res, s') \<and>
        distinct res \<and> set res = set verts \<and>
        (\<forall>u v. (u, v) \<in> edges g \<longrightarrow> precedes u v res))"
proof -
  from addEdges_all_inv[OF wf_graph_DAG acyclic_DAG, of verts hints]
  obtain g where g: "addEdges_all (DAG verts) hints = Some g" "wf_graph g" "acyclic (edges g)"
    "keys g = keys (DAG verts)" by blast
  from topoSort_correct[OF g(2,3), of tieBreaker s] g(1,4)
  show ?thesis by auto
qed

theorem topoSort_permutation_and_order_witness:
  "\<exists>g res s'. addEdges_all (DAG [''b'', ''a'']) [[''a'', ''b'']] = Some g \<and>
      topoSort (pure_cmp (\<lambda>a b. Num 0)) g () = Some (res, s') \<and>
      distinct res \<and> set res = set [''b'', ''a''] \<and>
      (''a'', ''b'') \<in> edges g \<and> precedes ''a'' ''b'' res"
proof -
  have e: "addEdges_all (DAG [''b'', ''a'']) [[''a'', ''b'']] = Some [(''b'', []), (''a'', [''b''])]"
    by code_simp
  have ab: "(''a'', ''b'') \<in> edges [(''b'', []), (''a'', [''b''])]"
    by (simp add: edges_def)
  from topoSort_permutation_and_order[of "[''b'', ''a'']" "[[''a'', ''b'']]"
      "pure_cmp (\<lambda>a b. Num 0)" "()"] e
  obtain res s' where r: "topoSort (pure_cmp (\<lambda>a b. Num 0)) [(''b'', []), (''a'', [''b''])] () = Some (res, s')"
    "distinct res" "set res = set [''b'', ''a'']"
    "\<forall>u v. (u, v) \<in> edges [(''b'', []), (''a'', [''b''])] \<longrightarrow> precedes u v res"
    by auto
  from r(4) ab have "precedes ''a'' ''b'' res" by blast
  with e ab r(1,2,3) show ?thesis by blast
qed

text \<open>
  Claim C4. Take any graph of the class (the constructor followed by any earlier
  \<open>addEdges\<close> calls) and any list of hints. Applying the list and then applying it
  again, in the same order, leaves the graph as it was after the first application:
  the second application adds no edge, and \<open>topoSort\<close> with the same tie-breaker,
  started in the same state, returns the same output after it as before it.
\<close>

theorem addEdges_idempotent:
  "\<exists>g g1 g2. addEdges_all (DAG verts) prior = Some g \<and>
      addEdges_all g hints = Some g1 \<and> addEdges_all g1 hints = Some g2 \<and>
      g2 = g1 \<and> edges g2 = edges g1 \<and>
      topoSort tieBreaker g2 s = topoSort tieBreaker g1 s"
proof -
  from addEdges_all_inv[OF wf_graph_DAG acyclic_DAG, of verts prior]
  obtain g where g: "addEdges_all (DAG verts) prior = Some g" "wf_graph g" "acyclic (edges g)"
    by blast
  from addEdges_all_twice[OF g(2,3), of hints]
  obtain g1 where "addEdges_all g hints = Some g1" "addEdges_all g1 hints = Some g1" by blast
  with g(1) show ?thesis by blast
qed

section \<open>The learned comparator and its cache (ai-cmp.ts, class AIComparator)\<close>

text \<open>
  The inference session is an external capability: \<open>run\<close> is the function it computes
  on a pair of tokens (the two scores \<open>cmp\<close> and \<open>cmpRev\<close>), taken as pure. The state of
  a comparator is its \<open>cache : Map<string, number>\<close> together with the list of pairs
  on which the session has been run so far, so that a call of \<open>rawCompare\<close> leaves a
  trace.
\<close>

record AIComparator =
  cache :: "(string \<times> number) list"
  runs :: "(SplitString \<times> SplitString) list"

definition AIComparator_create :: AIComparator where
  "AIComparator_create = \<lparr>cache = [], runs = []\<rparr>"

definition rawCompare ::
  "(SplitString \<Rightarrow> SplitString \<Rightarrow> number \<times> number) \<Rightarrow> SplitString \<Rightarrow> SplitString \<Rightarrow> AIComparator
     \<Rightarrow> (number \<times> number) \<times> AIComparator" where
  "rawCompare run a b st = (run a b, st\<lparr>runs := runs st @ [(a, b)]\<rparr>)"

definition compare ::
  "(SplitString \<Rightarrow> SplitString \<Rightarrow> number \<times> number) \<Rightarrow> SplitString \<Rightarrow> SplitString \<Rightarrow> AIComparator
     \<Rightarrow> number \<times> AIComparator" where
  "compare run a b st =
     (case map_of (cache st) (a @ ''-'' @ b) of
        Some c \<Rightarrow> (c, st)
      | None \<Rightarrow>
          (case map_of (cache st) (b @ ''-'' @ a) of
             Some c \<Rightarrow> (num_neg c, st)
           | None \<Rightarrow>
               (case rawCompare run a b st of
                  (output, st') \<Rightarrow>
                    (num_sub (fst output) (snd output),
                     st'\<lparr>cache :=
                           map_set (a @ ''-'' @ b) (num_sub (fst output) (snd output)) (cache st')\<rparr>))))"

text \<open>A sequence of \<open>compare\<close> calls on one comparator, results dropped.\<close>

fun compare_all ::
  "(SplitString \<Rightarrow> SplitString \<Rightarrow> number \<times> number) \<Rightarrow> (SplitString \<times> SplitString) list \<Rightarrow> AIComparator
     \<Rightarrow> AIComparator" where
  "compare_all run [] st = st"
| "compare_all run ((a, b) # calls) st = compare_all run calls (snd (compare run a b st))"

lemma key_inj:
  assumes "CHR ''-'' \<notin> set a" and "CHR ''-'' \<notin> set b" and "c @ ''-'' @ d = a @ ''-'' @ b"
  shows "c = a \<and> d = b"
proof -
  have len: "length c = length a"
  proof (rule ccontr)
    assume neq: "length c \<noteq> length a"
    have "(c @ ''-'' @ d) ! length c = CHR ''-''" by (simp add: nth_append)
    with assms(3) have dash: "(a @ ''-'' @ b) ! length c = CHR ''-''" by simp
    have in_range: "length c < length (a @ ''-'' @ b)"
      using arg_cong[OF assms(3), of length] by simp
    show False
    proof (cases "length c < length a")
      case True
      then have "(a @ ''-'' @ b) ! length c = a ! length c" by (simp add: nth_append)
      with dash True assms(1) show False by (metis nth_mem)
    next
      case False
      with neq have gt: "length c > length a" by simp
      then have "(a @ ''-'' @ b) ! length c = b ! (length c - length a - 1)"
        by (simp add: nth_append nth_Cons')
      moreover have "length c - length a - 1 < length b" using in_range gt by simp
      ultimately show False using dash assms(2) by (metis nth_mem)
    qed
  qed
  with assms(3) show ?thesis by simp
qed

text \<open>
  For a fixed pair and value: exactly one of the two keys of the pair is cached, with
  the value under the right sign.
\<close>

definition settled :: "SplitString \<Rightarrow> SplitString \<Rightarrow> number \<Rightarrow> AIComparator \<Rightarrow> bool" where
  "settled a b v st \<longleftrightarrow>
     (map_of (cache st) (a @ ''-'' @ b) = Some v \<and> map_of (cache st) (b @ ''-'' @ a) = None) \<or>
     (map_of (cache st) (a @ ''-'' @ b) = None \<and> map_of (cache st) (b @ ''-'' @ a) = Some (num_neg v))"

definition one_sided :: "SplitString \<Rightarrow> SplitString \<Rightarrow> AIComparator \<Rightarrow> bool" where
  "one_sided a b st \<longleftrightarrow>
     map_of (cache st) (a @ ''-'' @ b) = None \<or> map_of (cache st) (b @ ''-'' @ a) = None"

lemma compare_cache_cases:
  "cache (snd (compare run c d st)) = cache st \<or>
   (map_of (cache st) (c @ ''-'' @ d) = None \<and> map_of (cache st) (d @ ''-'' @ c) = None \<and>
    (\<exists>x. cache (snd (compare run c d st)) = map_set (c @ ''-'' @ d) x (cache st)))"
  by (auto simp: compare_def rawCompare_def split: option.splits)

lemma one_sided_compare:
  assumes "CHR ''-'' \<notin> set a" and "CHR ''-'' \<notin> set b" and "one_sided a b st"
    and "a \<noteq> b"
  shows "one_sided a b (snd (compare run c d st))"
proof -
  have ne: "b @ ''-'' @ a \<noteq> a @ ''-'' @ b"
    using key_inj[OF assms(1,2), of b a] assms(4) by auto
  from compare_cache_cases[of run c d st]
  show ?thesis
  proof
    assume "cache (snd (compare run c d st)) = cache st"
    with assms(3) show ?thesis by (simp add: one_sided_def)
  next
    assume "map_of (cache st) (c @ ''-'' @ d) = None \<and> map_of (cache st) (d @ ''-'' @ c) = None \<and>
      (\<exists>x. cache (snd (compare run c d st)) = map_set (c @ ''-'' @ d) x (cache st))"
    then obtain x where n1: "map_of (cache st) (c @ ''-'' @ d) = None"
      and n2: "map_of (cache st) (d @ ''-'' @ c) = None"
      and upd: "cache (snd (compare run c d st)) = map_set (c @ ''-'' @ d) x (cache st)" by blast
    show ?thesis
    proof (cases "c @ ''-'' @ d = a @ ''-'' @ b")
      case True
      then have "c = a" "d = b" using key_inj[OF assms(1,2)] by auto
      with n2 have "map_of (cache st) (b @ ''-'' @ a) = None" by simp
      then show ?thesis
        unfolding one_sided_def upd using True ne by simp
    next
      case ab: False
      show ?thesis
      proof (cases "c @ ''-'' @ d = b @ ''-'' @ a")
        case True
        then have "c = b" "d = a" using key_inj[OF assms(2,1)] by auto
        with n2 have "map_of (cache st) (a @ ''-'' @ b) = None" by simp
        then show ?thesis unfolding one_sided_def upd using ab by simp
      next
        case False
        with ab assms(3) show ?thesis unfolding one_sided_def upd by simp
      qed
    qed
  qed
qed

lemma one_sided_compare_all:
  assumes "CHR ''-'' \<notin> set a" and "CHR ''-'' \<notin> set b" and "one_sided a b st"
    and "a \<noteq> b"
  shows "one_sided a b (compare_all run calls st)"
  using assms(3)
proof (induction calls arbitrary: st)
  case Nil
  then show ?case by simp
next
  case (Cons p calls)
  obtain c d where p: "p = (c, d)" by (cases p)
  from Cons.IH[OF one_sided_compare[OF assms(1,2) Cons.prems assms(4), of run c d]] p
  show ?case by simp
qed

lemma settled_compare:
  assumes "CHR ''-'' \<notin> set a" and "CHR ''-'' \<notin> set b" and "settled a b v st"
  shows "settled a b v (snd (compare run c d st))"
proof -
  from compare_cache_cases[of run c d st]
  show ?thesis
  proof
    assume "cache (snd (compare run c d st)) = cache st"
    with assms(3) show ?thesis by (simp add: settled_def)
  next
    assume "map_of (cache st) (c @ ''-'' @ d) = None \<and> map_of (cache st) (d @ ''-'' @ c) = None \<and>
      (\<exists>x. cache (snd (compare run c d st)) = map_set (c @ ''-'' @ d) x (cache st))"
    then obtain x where n1: "map_of (cache st) (c @ ''-'' @ d) = None"
      and n2: "map_of (cache st) (d @ ''-'' @ c) = None"
      and upd: "cache (snd (compare run c d st)) = map_set (c @ ''-'' @ d) x (cache st)" by blast
    have "c @ ''-'' @ d \<noteq> a @ ''-'' @ b"
    proof
      assume eq: "c @ ''-'' @ d = a @ ''-'' @ b"
      then have "c = a" "d = b" using key_inj[OF assms(1,2)] by auto
      with n1 n2 assms(3) show False by (auto simp: settled_def)
    qed
    moreover have "c @ ''-'' @ d \<noteq> b @ ''-'' @ a"
    proof
      assume eq: "c @ ''-'' @ d = b @ ''-'' @ a"
      then have "c = b" "d = a" using key_inj[OF assms(2,1)] by auto
      with n1 n2 assms(3) show False by (auto simp: settled_def)
    qed
    ultimately show ?thesis using assms(3) unfolding settled_def upd by simp
  qed
qed

lemma settled_compare_all:
  assumes "CHR ''-'' \<notin> set a" and "CHR ''-'' \<notin> set b" and "settled a b v st"
  shows "settled a b v (compare_all run calls st)"
  using assms(3)
proof (induction calls arbitrary: st)
  case Nil
  then show ?case by simp
next
  case (Cons p calls)
  obtain c d where p: "p = (c, d)" by (cases p)
  from Cons.IH[OF settled_compare[OF assms(1,2) Cons.prems, of run c d]] p
  show ?case by simp
qed

lemma compare_settles:
  assumes "CHR ''-'' \<notin> set a" and "CHR ''-'' \<notin> set b" and "a \<noteq> b" and "one_sided a b st"
  shows "settled a b (fst (compare run a b st)) (snd (compare run a b st))"
proof -
  have ne: "b @ ''-'' @ a \<noteq> a @ ''-'' @ b"
    using key_inj[OF assms(1,2), of b a] assms(3) by auto
  show ?thesis
    using assms(4) ne
    by (auto simp: compare_def rawCompare_def settled_def one_sided_def split: option.splits)
qed

lemma settled_answers:
  assumes "settled a b v st"
  shows "compare run a b st = (v, st)" and "compare run b a st = (num_neg v, st)"
  using assms by (auto simp: settled_def compare_def split: option.splits)


lemma cached_compare:
  assumes "map_of (cache st) k = Some v"
  shows "map_of (cache (snd (compare run c d st))) k = Some v"
proof -
  from compare_cache_cases[of run c d st]
  show ?thesis
  proof
    assume "cache (snd (compare run c d st)) = cache st"
    with assms show ?thesis by simp
  next
    assume "map_of (cache st) (c @ ''-'' @ d) = None \<and> map_of (cache st) (d @ ''-'' @ c) = None \<and>
      (\<exists>x. cache (snd (compare run c d st)) = map_set (c @ ''-'' @ d) x (cache st))"
    then obtain x where n1: "map_of (cache st) (c @ ''-'' @ d) = None"
      and upd: "cache (snd (compare run c d st)) = map_set (c @ ''-'' @ d) x (cache st)" by blast
    from n1 assms have "c @ ''-'' @ d \<noteq> k" by auto
    with assms show ?thesis unfolding upd by simp
  qed
qed

lemma cached_compare_all:
  "map_of (cache st) k = Some v \<Longrightarrow> map_of (cache (compare_all run calls st)) k = Some v"
proof (induction calls arbitrary: st)
  case Nil
  then show ?case by simp
next
  case (Cons p calls)
  obtain c d where p: "p = (c, d)" by (cases p)
  from Cons.IH[OF cached_compare[OF Cons.prems, of run c d]] p show ?case by simp
qed

lemma compare_same_token_cached:
  "map_of (cache (snd (compare run a a st))) (a @ ''-'' @ a) = Some (fst (compare run a a st))"
  by (auto simp: compare_def rawCompare_def split: option.splits)

lemma cached_answers:
  "map_of (cache st) (a @ ''-'' @ b) = Some v \<Longrightarrow> compare run a b st = (v, st)"
  by (simp add: compare_def)

text \<open>
  Claim C10, amended in its negation clause. Let \<open>a\<close> and \<open>b\<close> be tokens without the
  character \<open>-\<close>, equal or not, and let the comparator have served any calls before.
  Whatever \<open>compare(a, b)\<close> returns then, every later \<open>compare(a, b)\<close> returns the same
  value, whatever other calls come in between. Every later \<open>compare(b, a)\<close> is answered
  from the cache, without another run of the session: the trace of runs is unchanged by
  it. When \<open>a\<close> and \<open>b\<close> are different, its answer is the negation of that value.
\<close>

theorem compare_deterministic_antisymmetric:
  assumes "CHR ''-'' \<notin> set a" and "CHR ''-'' \<notin> set b"
  shows "let st0 = compare_all run before AIComparator_create;
             v = fst (compare run a b st0);
             st2 = compare_all run between (snd (compare run a b st0))
         in compare run a b st2 = (v, st2) \<and>
            (a \<noteq> b \<longrightarrow> compare run b a st2 = (num_neg v, st2)) \<and>
            runs (snd (compare run b a st2)) = runs st2"
proof -
  define st0 where "st0 = compare_all run before AIComparator_create"
  define v where "v = fst (compare run a b st0)"
  define st2 where "st2 = compare_all run between (snd (compare run a b st0))"
  have "compare run a b st2 = (v, st2) \<and>
            (a \<noteq> b \<longrightarrow> compare run b a st2 = (num_neg v, st2)) \<and>
            runs (snd (compare run b a st2)) = runs st2"
  proof (cases "a = b")
    case True
    have "map_of (cache (snd (compare run a a st0))) (a @ ''-'' @ a) = Some (fst (compare run a a st0))"
      by (rule compare_same_token_cached)
    then have "map_of (cache st2) (a @ ''-'' @ a) = Some v"
      unfolding st2_def v_def True[symmetric] by (rule cached_compare_all)
    then have "compare run a a st2 = (v, st2)" by (rule cached_answers)
    with True show ?thesis by simp
  next
    case False
    have "one_sided a b AIComparator_create"
      by (simp add: one_sided_def AIComparator_create_def)
    then have "one_sided a b st0"
      unfolding st0_def by (rule one_sided_compare_all[OF assms(1,2) _ False])
    then have "settled a b v (snd (compare run a b st0))"
      unfolding v_def by (rule compare_settles[OF assms False])
    then have "settled a b v st2"
      unfolding st2_def by (rule settled_compare_all[OF assms(1,2)])
    from settled_answers[OF this, of run] show ?thesis by simp
  qed
  then show ?thesis unfolding st0_def v_def st2_def Let_def .
qed

theorem compare_deterministic_antisymmetric_witness:
  "CHR ''-'' \<notin> set ''x'' \<and> CHR ''-'' \<notin> set ''y'' \<and> ''x'' \<noteq> ''y'' \<and>
   compare (\<lambda>a b. (Num 1, Num 0)) ''y'' ''x''
       (compare_all (\<lambda>a b. (Num 1, Num 0)) [(''y'', ''z'')]
          (snd (compare (\<lambda>a b. (Num 1, Num 0)) ''x'' ''y'' AIComparator_create))) =
     (num_neg (fst (compare (\<lambda>a b. (Num 1, Num 0)) ''x'' ''y'' AIComparator_create)),
      compare_all (\<lambda>a b. (Num 1, Num 0)) [(''y'', ''z'')]
          (snd (compare (\<lambda>a b. (Num 1, Num 0)) ''x'' ''y'' AIComparator_create)))"
  using compare_deterministic_antisymmetric[of "''x''" "''y''" "\<lambda>a b. (Num 1, Num 0)" "[]" "[(''y'', ''z'')]"]
  by (simp add: Let_def)

text \<open>
  As stated for every pair, the claim fails when the two tokens are equal: the second
  \<open>compare(x, x)\<close> is answered from the key that the first one stored and returns the
  same value, not its negation.
\<close>

theorem compare_antisymmetric_counterexample:
  "fst (compare (\<lambda>a b. (Num 1, Num 0)) ''x'' ''x''
          (snd (compare (\<lambda>a b. (Num 1, Num 0)) ''x'' ''x'' AIComparator_create))) \<noteq>
   num_neg (fst (compare (\<lambda>a b. (Num 1, Num 0)) ''x'' ''x'' AIComparator_create))"
  by (simp add: compare_def rawCompare_def AIComparator_create_def num_sub_def)

section \<open>Pairwise rank estimator (bradley-terry.ts)\<close>

text \<open>
  \<open>w[i][j]\<close>: a missing entry of a row reads as \<open>undefined\<close>, which arithmetic turns
  into \<open>NaN\<close>.
\<close>

definition entry :: "number list list \<Rightarrow> nat \<Rightarrow> nat \<Rightarrow> number" where
  "entry w i j = (if j < length (w ! i) then w ! i ! j else NaN)"

text \<open>The loop over \<open>j\<close>, carrying \<open>num\<close> and \<open>den\<close> (here \<open>numer\<close>, \<open>denom\<close>).\<close>

fun accumulate :: "number list list \<Rightarrow> number list \<Rightarrow> nat \<Rightarrow> nat list \<Rightarrow> number \<times> number
    \<Rightarrow> number \<times> number" where
  "accumulate w p i [] (numer, denom) = (numer, denom)"
| "accumulate w p i (j # js) (numer, denom) =
     (if i = j then accumulate w p i js (numer, denom)
      else accumulate w p i js
             (num_add numer (num_div (num_mul (entry w i j) (p ! j)) (num_add (p ! i) (p ! j))),
              num_add denom (num_div (entry w j i) (num_add (p ! i) (p ! j)))))"

text \<open>The loop over \<open>i\<close>, carrying \<open>p\<close> (updated in place) and \<open>normLog\<close>.\<close>

fun pass :: "number list list \<Rightarrow> nat \<Rightarrow> nat list \<Rightarrow> number list \<times> number
    \<Rightarrow> number list \<times> number" where
  "pass w n [] (p, normLog) = (p, normLog)"
| "pass w n (i # rest) (p, normLog) =
     (case accumulate w p i [0..<n] (Num 0, Num 0) of
        (numer, denom) \<Rightarrow>
          pass w n rest (p[i := num_div numer denom],
                         num_add normLog (Math_log (num_div numer denom))))"

text \<open>
  The outer loop; \<open>remaining\<close> counts the iterations left of \<open>maxIter\<close>.
\<close>

fun iterations :: "number list list \<Rightarrow> nat \<Rightarrow> nat \<Rightarrow> number list \<Rightarrow> number \<Rightarrow> number list" where
  "iterations w n 0 p lastNorm = p"
| "iterations w n (Suc remaining) p lastNorm =
     (case pass w n [0..<n] (p, Num 0) of
        (p', normLog) \<Rightarrow>
          if num_less (Math_abs (num_sub lastNorm (Math_exp (num_div normLog (Num (real n))))))
               (Num (1 / 1000))
          then map (\<lambda>x. num_div x (Math_exp (num_div normLog (Num (real n))))) p'
          else iterations w n remaining
                 (map (\<lambda>x. num_div x (Math_exp (num_div normLog (Num (real n))))) p')
                 (Math_exp (num_div normLog (Num (real n)))))"

definition bradleyTerry :: "number list list \<Rightarrow> nat \<Rightarrow> number list" where
  "bradleyTerry w maxIter = iterations w (length w) maxIter (replicate (length w) (Num 1)) (Num 0)"

lemma nan_pass2:
  "pass w 2 [0, 1] ([NaN, NaN], Num 0) = ([NaN, NaN], NaN)"
  by (simp add: upt_rec numeral_2_eq_2)

lemma nan_stays: "iterations w 2 k [NaN, NaN] NaN = [NaN, NaN]"
proof (induction k)
  case 0
  show ?case by simp
next
  case (Suc k)
  have "pass w 2 [0..<2] ([NaN, NaN], Num 0) = ([NaN, NaN], NaN)"
    using nan_pass2 by (simp add: upt_rec numeral_2_eq_2)
  with Suc show ?case by simp
qed

lemma first_pass:
  assumes "0 < a"
  shows "pass [[Num 0, Num a], [Num 0, Num 0]] 2 [0..<2] ([Num 1, Num 1], Num 0) = ([PosInf, NaN], NaN)"
  using assms by (simp add: upt_rec numeral_2_eq_2 entry_def)

text \<open>
  Claim C8. For the two-by-two win matrix in which item 0 beats item 1 with a positive
  weight and every other entry is zero, \<open>bradleyTerry\<close> returns \<open>NaN\<close> for both
  strengths, with the default cap of ten iterations and with any other positive cap:
  the first pass makes \<open>p[0]\<close> infinite (a positive numerator over a zero
  denominator) and \<open>p[1]\<close> the quotient of \<open>0 * Infinity\<close>, and the normalisation by
  \<open>NaN\<close> spreads it.
\<close>

theorem bradleyTerry_one_sided_NaN:
  assumes "0 < a" and "0 < maxIter"
  shows "bradleyTerry [[Num 0, Num a], [Num 0, Num 0]] maxIter = [NaN, NaN]"
proof -
  let ?w = "[[Num 0, Num a], [Num 0, Num 0]]"
  from assms(2) obtain k where k: "maxIter = Suc k" by (cases maxIter) auto
  have len: "length ?w = 2" by simp
  have ones: "replicate 2 (Num 1) = [Num 1, Num 1]" by (simp add: numeral_2_eq_2)
  have "iterations ?w 2 (Suc k) [Num 1, Num 1] (Num 0) =
        iterations ?w 2 k [NaN, NaN] NaN"
    unfolding iterations.simps first_pass[OF assms(1)] by (simp add: num_sub_def)
  also have "\<dots> = [NaN, NaN]" by (rule nan_stays)
  finally show ?thesis unfolding bradleyTerry_def len ones k .
qed

theorem bradleyTerry_one_sided_NaN_witness:
  "(0::real) < 10 \<and> (0::nat) < 10 \<and>
   bradleyTerry [[Num 0, Num 10], [Num 0, Num 0]] 10 = [NaN, NaN]"
  using bradleyTerry_one_sided_NaN[of 10 10] by simp

section \<open>Orchestrator (preference-sorter.ts, class PreferenceSorter)\<close>

text \<open>
  What a call can do: return a value, return nothing (\<open>undefined\<close>), or throw.
\<close>

datatype 'a outcome = Returned 'a | Undefined | Thrown

text \<open>
  The fields of the class. \<open>useAI\<close> is the run-time value of the mode selector; the
  type \<open>UseAIOption\<close> admits three strings, and nothing checks it at run time. The
  comparator is present unless the sorter was created for mode \<open>'no'\<close>. The canonical
  list \<open>order\<close> of the module \<open>order.ts\<close> is not among the sources: it is a
  parameter, like \<open>splitIdentifier\<close>.
\<close>

record PreferenceSorter =
  orders :: "SplitString list list"
  useAI :: string
  aiComparator :: "AIComparator option"

definition PreferenceSorter_new ::
  "SplitString list \<Rightarrow> SplitString list \<Rightarrow> string \<Rightarrow> AIComparator option \<Rightarrow> PreferenceSorter" where
  "PreferenceSorter_new order customOrder mode ai =
     \<lparr>orders = (if length customOrder > 1 then [customOrder] else []) @ [order],
      useAI = mode, aiComparator = ai\<rparr>"

definition PreferenceSorter_create ::
  "(string \<Rightarrow> SplitString) \<Rightarrow> SplitString list \<Rightarrow> string \<Rightarrow> string list \<Rightarrow> PreferenceSorter" where
  "PreferenceSorter_create splitIdentifier order mode customOrder =
     (if mode = ''no'' then PreferenceSorter_new order (map splitIdentifier customOrder) mode None
      else PreferenceSorter_new order (map splitIdentifier customOrder) mode
             (Some AIComparator_create))"

text \<open>
  Mode \<open>'stable'\<close>: the matrix \<open>w\<close> starts with every entry \<open>undefined\<close> (read as
  \<open>NaN\<close> by arithmetic) and is filled from \<open>rawCompare\<close> for every \<open>i < j\<close>; the
  destructuring assignment stores the first score in \<open>w[j][i]\<close> and the second in
  \<open>w[i][j]\<close>.
\<close>

definition set_entry :: "number list list \<Rightarrow> nat \<Rightarrow> nat \<Rightarrow> number \<Rightarrow> number list list" where
  "set_entry w r c x = w[r := (w ! r)[c := x]]"

fun fill_row ::
  "(SplitString \<Rightarrow> SplitString \<Rightarrow> number \<times> number) \<Rightarrow> SplitString list \<Rightarrow> nat \<Rightarrow> nat list
     \<Rightarrow> number list list \<times> AIComparator \<Rightarrow> number list list \<times> AIComparator" where
  "fill_row run arr i [] st = st"
| "fill_row run arr i (j # js) (w, ai) =
     (case rawCompare run (arr ! i) (arr ! j) ai of
        (output, ai') \<Rightarrow>
          fill_row run arr i js (set_entry (set_entry w j i (fst output)) i j (snd output), ai'))"

fun fill_matrix ::
  "(SplitString \<Rightarrow> SplitString \<Rightarrow> number \<times> number) \<Rightarrow> SplitString list \<Rightarrow> nat list
     \<Rightarrow> number list list \<times> AIComparator \<Rightarrow> number list list \<times> AIComparator" where
  "fill_matrix run arr [] st = st"
| "fill_matrix run arr (i # rest) st =
     fill_matrix run arr rest (fill_row run arr i [Suc i..<length arr] st)"

text \<open>
  \<open>Array.from(p.keys()).sort((a, b) => p[b] - p[a]).map(si => arr[si])\<close>. The
  engine's \<open>sort\<close> is a parameter \<open>jsSort\<close>: with \<open>NaN\<close> among the strengths the
  comparator is not consistent and the order is implementation-defined.
\<close>

definition ranked ::
  "((nat \<Rightarrow> nat \<Rightarrow> number) \<Rightarrow> nat list \<Rightarrow> nat list) \<Rightarrow> number list \<Rightarrow> SplitString list
     \<Rightarrow> SplitString list" where
  "ranked jsSort p arr =
     map (\<lambda>si. arr ! si) (jsSort (\<lambda>a b. num_sub (p ! b) (p ! a)) [0..<length p])"

text \<open>
  \<open>indexMap = new Map(arr.map((v, i) => [v, i]))\<close> and the tie-breaker
  \<open>indexMap.get(a)! - indexMap.get(b)!\<close>; an absent key gives \<open>undefined\<close> and the
  difference \<open>NaN\<close>.
\<close>

fun indexMap_from :: "nat \<Rightarrow> SplitString list \<Rightarrow> (SplitString \<times> nat) list \<Rightarrow> (SplitString \<times> nat) list" where
  "indexMap_from i [] m = m"
| "indexMap_from i (v # vs) m = indexMap_from (Suc i) vs (map_set v i m)"

definition by_index :: "(SplitString \<times> nat) list \<Rightarrow> SplitString \<Rightarrow> SplitString \<Rightarrow> number" where
  "by_index indexMap a b =
     (case (map_of indexMap a, map_of indexMap b) of
        (Some i, Some j) \<Rightarrow> Num (real i - real j)
      | _ \<Rightarrow> NaN)"

text \<open>The shared tail of the cases \<open>'stable'\<close> and \<open>'no'\<close>.\<close>

definition by_original_order :: "graph \<Rightarrow> SplitString list \<Rightarrow> SplitString list outcome" where
  "by_original_order dag arr =
     (case addEdges dag arr of
        None \<Rightarrow> Thrown
      | Some dag' \<Rightarrow>
          (case topoSort (pure_cmp (by_index (indexMap_from 0 arr []))) dag' () of
             None \<Rightarrow> Thrown
           | Some (result, _) \<Rightarrow> Returned result))"

definition PreferenceSorter_sort ::
  "(SplitString \<Rightarrow> SplitString \<Rightarrow> number \<times> number)
     \<Rightarrow> ((nat \<Rightarrow> nat \<Rightarrow> number) \<Rightarrow> nat list \<Rightarrow> nat list)
     \<Rightarrow> PreferenceSorter \<Rightarrow> SplitString list \<Rightarrow> SplitString list outcome \<times> PreferenceSorter" where
  "PreferenceSorter_sort run jsSort this arr =
     (if length arr < 2 then (Returned arr, this)
      else (case addEdges_all (DAG arr) (orders this) of
              None \<Rightarrow> (Thrown, this)
            | Some dag \<Rightarrow>
                if useAI this = ''yes''
                then (case aiComparator this of
                        None \<Rightarrow> (Thrown, this)
                      | Some ai \<Rightarrow>
                          (case topoSort (compare run) dag ai of
                             None \<Rightarrow> (Thrown, this)
                           | Some (result, ai') \<Rightarrow>
                               (Returned result, this\<lparr>aiComparator := Some ai'\<rparr>)))
                else if useAI this = ''stable''
                then (case aiComparator this of
                        None \<Rightarrow> (Thrown, this)
                      | Some ai \<Rightarrow>
                          (case fill_matrix run arr [0..<length arr]
                                  (replicate (length arr) (replicate (length arr) NaN), ai) of
                             (w, ai') \<Rightarrow>
                               (by_original_order dag (ranked jsSort (bradleyTerry w 10) arr),
                                this\<lparr>aiComparator := Some ai'\<rparr>)))
                else if useAI this = ''no''
                then (by_original_order dag arr, this)
                else (Undefined, this)))"

text \<open>
  One sort that an engine may implement, for running the orchestrator on an example:
  stable insertion by the sign of the comparator.
\<close>

fun insert_by :: "('a \<Rightarrow> 'a \<Rightarrow> number) \<Rightarrow> 'a \<Rightarrow> 'a list \<Rightarrow> 'a list" where
  "insert_by c x [] = [x]"
| "insert_by c x (y # ys) =
     (if num_less (c x y) (Num 0) then x # y # ys else y # insert_by c x ys)"

definition insertion_sort :: "('a \<Rightarrow> 'a \<Rightarrow> number) \<Rightarrow> 'a list \<Rightarrow> 'a list" where
  "insertion_sort c xs = fold (insert_by c) xs []"

lemma accumulate_total: "\<exists>x y. accumulate w p i js st = (x, y)"
  by (cases "accumulate w p i js st") simp

lemma pass_length: "length (fst (pass w n is (p, normLog))) = length p"
proof (induction "is" arbitrary: p normLog)
  case Nil
  show ?case by simp
next
  case (Cons i rest)
  obtain x y where a: "accumulate w p i [0..<n] (Num 0, Num 0) = (x, y)"
    by (cases "accumulate w p i [0..<n] (Num 0, Num 0)")
  show ?case using Cons[of "p[i := num_div x y]"] a by simp
qed

lemma iterations_length: "length (iterations w n k p lastNorm) = length p"
proof (induction k arbitrary: p lastNorm)
  case 0
  show ?case by simp
next
  case (Suc k)
  obtain p' normLog where ps: "pass w n [0..<n] (p, Num 0) = (p', normLog)"
    by (cases "pass w n [0..<n] (p, Num 0)")
  then have "length p' = length p" using pass_length[of w n "[0..<n]" p "Num 0"] by simp
  with Suc ps show ?case by simp
qed

lemma bradleyTerry_length: "length (bradleyTerry w maxIter) = length w"
  by (simp add: bradleyTerry_def iterations_length)

lemma fill_row_length: "length (fst (fill_row run arr i js (w, ai))) = length w"
proof (induction js arbitrary: w ai)
  case Nil
  show ?case by simp
next
  case (Cons j js)
  show ?case
    by (simp add: rawCompare_def Cons set_entry_def)
qed

lemma fill_matrix_length: "length (fst (fill_matrix run arr is (w, ai))) = length w"
proof (induction "is" arbitrary: w ai)
  case Nil
  show ?case by simp
next
  case (Cons i rest)
  obtain w1 ai1 where r: "fill_row run arr i [Suc i..<length arr] (w, ai) = (w1, ai1)"
    by (cases "fill_row run arr i [Suc i..<length arr] (w, ai)")
  then have "length w1 = length w" using fill_row_length[of run arr i "[Suc i..<length arr]" w ai] by simp
  with Cons[of w1 ai1] r show ?case by simp
qed

lemma ranked_mset:
  assumes "\<And>c xs. mset (jsSort c xs) = mset xs" and "length p = length arr"
  shows "mset (ranked jsSort p arr) = mset arr"
proof -
  let ?perm = "jsSort (\<lambda>a b. num_sub (p ! b) (p ! a)) [0..<length p]"
  have "mset (map (\<lambda>si. arr ! si) ?perm) = image_mset (\<lambda>si. arr ! si) (mset ?perm)" by simp
  also have "\<dots> = image_mset (\<lambda>si. arr ! si) (mset [0..<length arr])"
    using assms by simp
  also have "\<dots> = mset (map (\<lambda>si. arr ! si) [0..<length arr])" by simp
  also have "\<dots> = mset arr" by (simp add: map_nth)
  finally show ?thesis by (simp add: ranked_def)
qed

lemma by_original_order_correct:
  assumes "wf_graph dag" and "acyclic (edges dag)"
  shows "\<exists>result. by_original_order dag arr = Returned result \<and> distinct result \<and>
           set result = set (keys dag)"
proof -
  from addEdges_inv[OF assms, of arr]
  obtain dag' where d: "addEdges dag arr = Some dag'" "wf_graph dag'" "acyclic (edges dag')"
    "keys dag' = keys dag" by blast
  from topoSort_correct[OF d(2,3), of "pure_cmp (by_index (indexMap_from 0 arr []))" "()"]
  obtain result s' where "topoSort (pure_cmp (by_index (indexMap_from 0 arr []))) dag' () = Some (result, s')"
    "distinct result" "set result = set (keys dag')" by blast
  with d(1,4) show ?thesis by (simp add: by_original_order_def)
qed

lemma new_Set_distinct_id: "distinct xs \<Longrightarrow> new_Set xs = xs"
proof -
  have "distinct (acc @ xs) \<Longrightarrow> fold set_add xs acc = acc @ xs" for acc
    by (induction xs arbitrary: acc) (auto simp: set_add_def)
  from this[of "[]"] show "distinct xs \<Longrightarrow> new_Set xs = xs" by (simp add: new_Set_def)
qed

lemma distinct_same_set_mset:
  "distinct xs \<Longrightarrow> distinct ys \<Longrightarrow> set xs = set ys \<Longrightarrow> mset xs = mset ys"
  by (simp add: set_eq_iff_mset_eq_distinct)

text \<open>
  Claim C1. Let the input tokens be pairwise distinct and the mode one of \<open>'yes'\<close>,
  \<open>'no'\<close> and \<open>'stable'\<close>, on a sorter that has its comparator unless its mode is
  \<open>'no'\<close> (as \<open>create\<close> builds it), with any hints whatever in \<open>orders\<close>. Then
  \<open>sort\<close> returns a list and the list is a permutation of the input: the same
  multiset of elements, hence the same length. All that is assumed of the engine's
  \<open>sort\<close> is that it permutes the array it is given.
\<close>

theorem sort_permutation:
  assumes "distinct arr"
    and "useAI this \<in> {''yes'', ''no'', ''stable''}"
    and "useAI this \<noteq> ''no'' \<longrightarrow> aiComparator this \<noteq> None"
    and "\<And>c xs. mset (jsSort c xs) = mset xs"
  shows "\<exists>result this'. PreferenceSorter_sort run jsSort this arr = (Returned result, this') \<and>
           mset result = mset arr \<and> length result = length arr"
proof (cases "length arr < 2")
  case True
  then show ?thesis by (simp add: PreferenceSorter_sort_def)
next
  case False
  from addEdges_all_inv[OF wf_graph_DAG acyclic_DAG, of arr "orders this"]
  obtain dag where dag: "addEdges_all (DAG arr) (orders this) = Some dag" "wf_graph dag"
    "acyclic (edges dag)" "keys dag = keys (DAG arr)" by blast
  have k: "keys dag = arr" using dag(4) new_Set_distinct_id[OF assms(1)] by simp
  have perm: "mset result = mset arr \<and> length result = length arr"
    if "distinct result" "set result = set (keys dag)" for result
  proof -
    have "mset result = mset arr"
      by (rule distinct_same_set_mset[OF that(1) assms(1)]) (use that(2) k in simp)
    then show ?thesis by (metis size_mset)
  qed
  from assms(2) consider "useAI this = ''yes''" | "useAI this = ''stable''" | "useAI this = ''no''"
    by auto
  then show ?thesis
  proof cases
    case 1
    with assms(3) obtain ai where ai: "aiComparator this = Some ai" by auto
    from topoSort_correct[OF dag(2,3), of "compare run" ai]
    obtain result ai' where r: "topoSort (compare run) dag ai = Some (result, ai')"
      "distinct result" "set result = set (keys dag)" by blast
    have "PreferenceSorter_sort run jsSort this arr =
            (Returned result, this\<lparr>aiComparator := Some ai'\<rparr>)"
      using False dag(1) 1 ai r(1) by (simp add: PreferenceSorter_sort_def)
    with perm[OF r(2,3)] show ?thesis by blast
  next
    case 2
    with assms(3) obtain ai where ai: "aiComparator this = Some ai" by auto
    obtain w ai' where w: "fill_matrix run arr [0..<length arr]
        (replicate (length arr) (replicate (length arr) NaN), ai) = (w, ai')"
      by (metis surj_pair)
    from by_original_order_correct[OF dag(2,3), of "ranked jsSort (bradleyTerry w 10) arr"]
    obtain result where r: "by_original_order dag (ranked jsSort (bradleyTerry w 10) arr) = Returned result"
      "distinct result" "set result = set (keys dag)" by blast
    have "PreferenceSorter_sort run jsSort this arr =
            (Returned result, this\<lparr>aiComparator := Some ai'\<rparr>)"
      using False dag(1) 2 ai w r(1) by (simp add: PreferenceSorter_sort_def)
    with perm[OF r(2,3)] show ?thesis by blast
  next
    case 3
    from by_original_order_correct[OF dag(2,3), of arr]
    obtain result where r: "by_original_order dag arr = Returned result"
      "distinct result" "set result = set (keys dag)" by blast
    have "PreferenceSorter_sort run jsSort this arr = (Returned result, this)"
      using False dag(1) 3 r(1) by (simp add: PreferenceSorter_sort_def)
    with perm[OF r(2,3)] show ?thesis by blast
  qed
qed

lemma insert_by_mset: "mset (insert_by c x xs) = add_mset x (mset xs)"
  by (induction xs) auto

lemma insertion_sort_mset: "mset (insertion_sort c xs) = mset xs"
proof -
  have "mset (fold (insert_by c) xs acc) = mset xs + mset acc" for acc
    by (induction xs arbitrary: acc) (auto simp: insert_by_mset)
  then show ?thesis by (simp add: insertion_sort_def)
qed

theorem sort_permutation_witness:
  "\<exists>result this'.
     PreferenceSorter_sort (\<lambda>a b. (Num 1, Num 0)) insertion_sort
       (PreferenceSorter_create id [''key'', ''ref''] ''stable'' [''x*'', ''b''])
       [''b'', ''ref'', ''a'', ''x1'', ''key''] = (Returned result, this') \<and>
     mset result = mset [''b'', ''ref'', ''a'', ''x1'', ''key''] \<and>
     length result = length [''b'', ''ref'', ''a'', ''x1'', ''key'']"
proof -
  let ?srt = "PreferenceSorter_create id [''key'', ''ref''] ''stable'' [''x*'', ''b'']"
  have 1: "distinct [''b'', ''ref'', ''a'', ''x1'', ''key'']" by simp
  have 2: "useAI ?srt \<in> {''yes'', ''no'', ''stable''}"
    by (simp add: PreferenceSorter_create_def PreferenceSorter_new_def)
  have 3: "useAI ?srt \<noteq> ''no'' \<longrightarrow> aiComparator ?srt \<noteq> None"
    by (simp add: PreferenceSorter_create_def PreferenceSorter_new_def)
  have 4: "\<And>c xs. mset (insertion_sort c xs) = mset (xs :: nat list)"
    by (rule insertion_sort_mset)
  from sort_permutation[of "[''b'', ''ref'', ''a'', ''x1'', ''key'']" ?srt insertion_sort
      "\<lambda>a b. (Num 1, Num 0)", OF 1 2 3 4]
  show ?thesis .
qed

text \<open>
  Claim C9, amended. A mode selector outside \<open>'no'\<close>, \<open>'yes'\<close> and \<open>'stable'\<close> is
  excluded by the type of the parameter only; nothing rejects it at run time. For such
  a value \<open>sort\<close> raises no error: an input of fewer than two tokens is returned as it
  is, and for a longer input the call returns no value, leaving the sorter as it was.
\<close>

theorem sort_invalid_mode:
  assumes "useAI this \<notin> {''yes'', ''no'', ''stable''}"
  shows "PreferenceSorter_sort run jsSort this arr =
           (if length arr < 2 then (Returned arr, this) else (Undefined, this))"
proof -
  from addEdges_all_inv[OF wf_graph_DAG acyclic_DAG, of arr "orders this"]
  obtain dag where "addEdges_all (DAG arr) (orders this) = Some dag" by blast
  with assms show ?thesis by (simp add: PreferenceSorter_sort_def)
qed

theorem sort_invalid_mode_witness:
  "useAI (PreferenceSorter_create id [''key'', ''ref''] ''maybe'' []) \<notin> {''yes'', ''no'', ''stable''} \<and>
   PreferenceSorter_sort (\<lambda>a b. (Num 1, Num 0)) insertion_sort
       (PreferenceSorter_create id [''key'', ''ref''] ''maybe'' []) [''ref'', ''key''] =
     (Undefined, PreferenceSorter_create id [''key'', ''ref''] ''maybe'' [])"
  using sort_invalid_mode[of "PreferenceSorter_create id [''key'', ''ref''] ''maybe'' []"
      "\<lambda>a b. (Num 1, Num 0)" insertion_sort "[''ref'', ''key'']"]
  by (simp add: PreferenceSorter_create_def PreferenceSorter_new_def)

text \<open>
  As stated, the claim fails: with the mode \<open>'maybe'\<close> the call on two tokens is not
  rejected with an error; it returns \<open>undefined\<close>.
\<close>

theorem sort_invalid_mode_counterexample:
  "fst (PreferenceSorter_sort (\<lambda>a b. (Num 1, Num 0)) insertion_sort
          (PreferenceSorter_create id [''key'', ''ref''] ''maybe'' []) [''ref'', ''key'']) = Undefined \<and>
   fst (PreferenceSorter_sort (\<lambda>a b. (Num 1, Num 0)) insertion_sort
          (PreferenceSorter_create id [''key'', ''ref''] ''maybe'' []) [''ref'', ''key'']) \<noteq> Thrown"
proof -
  have "addEdges_all (DAG [''ref'', ''key'']) [[''key'', ''ref'']] = Some [(''ref'', []), (''key'', [''ref''])]"
    by code_simp
  then show ?thesis
    by (simp add: PreferenceSorter_sort_def PreferenceSorter_create_def PreferenceSorter_new_def)
qed

section \<open>The heap order of the priority queue (queue.ts, class PriorityQueue)\<close>

subsection \<open>The heap order\<close>

text \<open>
  What the heap needs of its comparator: a total preorder \<open>le\<close> that every answer is
  consistent with. A negative answer for \<open>(a, b)\<close> must imply \<open>le a b\<close>, any other
  answer \<open>le b a\<close>.
\<close>

definition decides :: "('a, 's) Comparator \<Rightarrow> ('a \<Rightarrow> 'a \<Rightarrow> bool) \<Rightarrow> bool" where
  "decides cmp le \<longleftrightarrow>
     (\<forall>a b s. (num_less (fst (cmp a b s)) (Num 0) \<longrightarrow> le a b) \<and>
              (\<not> num_less (fst (cmp a b s)) (Num 0) \<longrightarrow> le b a)) \<and>
     (\<forall>a b c. le a b \<longrightarrow> le b c \<longrightarrow> le a c)"

definition heap_ok :: "('a \<Rightarrow> 'a \<Rightarrow> bool) \<Rightarrow> 'a list \<Rightarrow> bool" where
  "heap_ok le q \<longleftrightarrow> (\<forall>i < length q. 0 < i \<longrightarrow> le (q ! ((i - 1) div 2)) (q ! i))"

text \<open>The order holds everywhere except between \<open>k\<close> and its parent.\<close>

definition heap_but_up :: "('a \<Rightarrow> 'a \<Rightarrow> bool) \<Rightarrow> 'a list \<Rightarrow> nat \<Rightarrow> bool" where
  "heap_but_up le q k \<longleftrightarrow>
     (\<forall>i < length q. 0 < i \<longrightarrow> i \<noteq> k \<longrightarrow> le (q ! ((i - 1) div 2)) (q ! i)) \<and>
     (\<forall>i < length q. 0 < i \<longrightarrow> (i - 1) div 2 = k \<longrightarrow> 0 < k \<longrightarrow>
        le (q ! ((k - 1) div 2)) (q ! i))"

text \<open>The order holds everywhere except between \<open>k\<close> and its children.\<close>

definition heap_but_down :: "('a \<Rightarrow> 'a \<Rightarrow> bool) \<Rightarrow> 'a list \<Rightarrow> nat \<Rightarrow> bool" where
  "heap_but_down le q k \<longleftrightarrow>
     (\<forall>i < length q. 0 < i \<longrightarrow> (i - 1) div 2 \<noteq> k \<longrightarrow> le (q ! ((i - 1) div 2)) (q ! i)) \<and>
     (\<forall>i < length q. 0 < i \<longrightarrow> (i - 1) div 2 = k \<longrightarrow> 0 < k \<longrightarrow>
        le (q ! ((k - 1) div 2)) (q ! i))"

lemma decides_neg: "decides cmp le \<Longrightarrow> num_less (fst (cmp a b s)) (Num 0) \<Longrightarrow> le a b"
  unfolding decides_def by blast

lemma decides_nonneg: "decides cmp le \<Longrightarrow> \<not> num_less (fst (cmp a b s)) (Num 0) \<Longrightarrow> le b a"
  unfolding decides_def by blast

lemma decides_trans: "decides cmp le \<Longrightarrow> le a b \<Longrightarrow> le b c \<Longrightarrow> le a c"
  unfolding decides_def by blast

lemma decides_refl: "decides cmp le \<Longrightarrow> le a a"
  unfolding decides_def by blast

lemma swap_nth:
  "i < length q \<Longrightarrow> j < length q \<Longrightarrow>
     swap i j q ! n = (if n = j then q ! i else if n = i then q ! j else q ! n)"
  by (simp add: swap_def nth_list_update)

lemma parent_less: "0 < (i::nat) \<Longrightarrow> (i - 1) div 2 < i"
  by simp

lemma siftUp_heap:
  "decides cmp le \<Longrightarrow> k < length q \<Longrightarrow> heap_but_up le q k \<Longrightarrow>
     heap_ok le (fst (siftUp cmp k q s))"
proof (induction cmp k q s rule: siftUp.induct)
  case (1 cmp k q s)
  note dec = "1.prems"(1) and kl = "1.prems"(2) and hb = "1.prems"(3)
  show ?case
  proof (cases "0 < k")
    case False
    then have "k = 0" by simp
    with hb have "heap_ok le q" unfolding heap_but_up_def heap_ok_def by simp
    with False show ?thesis by (subst siftUp.simps) simp
  next
    case True
    let ?p = "(k - 1) div 2"
    have pk: "?p < k" using True by simp
    then have pl: "?p < length q" using kl by simp
    obtain c s' where c: "cmp (q ! k) (q ! ?p) s = (c, s')" by (cases "cmp (q ! k) (q ! ?p) s")
    have cfst: "fst (cmp (q ! k) (q ! ?p) s) = c" unfolding c by (rule fst_conv)
    from hb have
      h1: "\<And>i. i < length q \<Longrightarrow> 0 < i \<Longrightarrow> i \<noteq> k \<Longrightarrow> le (q ! ((i - 1) div 2)) (q ! i)"
      and h2: "\<And>i. i < length q \<Longrightarrow> 0 < i \<Longrightarrow> (i - 1) div 2 = k \<Longrightarrow> le (q ! ?p) (q ! i)"
      unfolding heap_but_up_def using True by blast+
    show ?thesis
    proof (cases "num_less c (Num 0)")
      case False
      then have "le (q ! ?p) (q ! k)"
        using decides_nonneg[OF dec, of "q ! k" "q ! ?p" s] cfst by metis
      then have "heap_ok le q" unfolding heap_ok_def
      proof (intro allI impI)
        fix i assume "i < length q" "0 < i"
        then show "le (q ! ((i - 1) div 2)) (q ! i)"
          using h1[of i] \<open>le (q ! ?p) (q ! k)\<close> by (cases "i = k") simp_all
      qed
      with True c False show ?thesis by (subst siftUp.simps) simp
    next
      case neg: True
      then have kp: "le (q ! k) (q ! ?p)"
        using decides_neg[OF dec, of "q ! k" "q ! ?p" s] cfst by metis
      let ?q' = "swap k ?p q"
      have nth': "\<And>n. ?q' ! n = (if n = ?p then q ! k else if n = k then q ! ?p else q ! n)"
        using swap_nth[OF kl pl] by simp
      have "heap_but_up le ?q' ?p"
        unfolding heap_but_up_def
      proof (intro conjI allI impI)
        fix i assume i: "i < length ?q'" "0 < i" "i \<noteq> ?p"
        then have il: "i < length q" by simp
        let ?pi = "(i - 1) div 2"
        show "le (?q' ! ?pi) (?q' ! i)"
        proof (cases "i = k")
          case True
          then show ?thesis using kp nth' pk by simp
        next
          case ik: False
          have qi: "?q' ! i = q ! i" using nth' i(3) ik by simp
          show ?thesis
          proof (cases "?pi = k")
            case True
            then have "?q' ! ?pi = q ! ?p" using nth' pk by simp
            with qi h2[OF il i(2) True] show ?thesis by simp
          next
            case nk: False
            show ?thesis
            proof (cases "?pi = ?p")
              case True
              then have e: "?q' ! ?pi = q ! k" using nth' by simp
              have "le (q ! ?p) (q ! i)" using h1[OF il i(2) ik] True by simp
              with kp have "le (q ! k) (q ! i)" by (rule decides_trans[OF dec])
              then show ?thesis unfolding e qi .
            next
              case False
              then have "?q' ! ?pi = q ! ?pi" using nth' nk by simp
              with qi h1[OF il i(2) ik] show ?thesis by simp
            qed
          qed
        qed
      next
        fix i assume i: "i < length ?q'" "0 < i" "(i - 1) div 2 = ?p" "0 < ?p"
        then have il: "i < length q" by simp
        let ?pp = "(?p - 1) div 2"
        have ppp: "?pp < ?p" using i(4) by simp
        have eq: "?q' ! ?pp = q ! ?pp" using nth' ppp pk by simp
        have top: "le (q ! ?pp) (q ! ?p)" using h1[OF pl i(4)] pk by simp
        have mid: "le (q ! ?p) (?q' ! i)"
        proof (cases "i = k")
          case True
          then show ?thesis using nth' pk decides_refl[OF dec] by simp
        next
          case False
          have "i \<noteq> ?p" using i(2,3) by (metis less_irrefl parent_less)
          then have "?q' ! i = q ! i" using nth' False by simp
          then show ?thesis using h1[OF il i(2) False] i(3) by simp
        qed
        show "le (?q' ! ?pp) (?q' ! i)"
          unfolding eq by (rule decides_trans[OF dec top mid])
      qed
      from "1.IH"[OF True c[symmetric] neg dec _ this] pl
      have "heap_ok le (fst (siftUp cmp ?p ?q' s'))" by simp
      with True c neg show ?thesis by (subst siftUp.simps) simp
    qed
  qed
qed

lemma parent_iff: "0 < (i::nat) \<Longrightarrow> ((i - 1) div 2 = k) = (i = 2 * k + 1 \<or> i = 2 * k + 2)"
  by presburger

lemma choose_min_least:
  assumes dec: "decides cmp le" and kl: "k < length q"
    and cm: "choose_min cmp k q s = (m, s')"
  shows "m = k \<or> m = 2 * k + 1 \<or> m = 2 * k + 2" and "m < length q"
    and "le (q ! m) (q ! k)"
    and "2 * k + 1 < length q \<Longrightarrow> le (q ! m) (q ! (2 * k + 1))"
    and "2 * k + 2 < length q \<Longrightarrow> le (q ! m) (q ! (2 * k + 2))"
proof -
  let ?L = "2 * k + 1" and ?R = "2 * k + 2"
  obtain c1 s1 where c1: "cmp (q ! ?L) (q ! k) s = (c1, s1)" by (cases "cmp (q ! ?L) (q ! k) s")
  define m1 where "m1 = (if ?L < length q \<and> num_less c1 (Num 0) then ?L else k)"
  define t1 where "t1 = (if ?L < length q then s1 else s)"
  have first: "(if ?L < length q
            then (case cmp (q ! ?L) (q ! k) s of
                    (c, s') \<Rightarrow> (if num_less c (Num 0) then ?L else k, s'))
            else (k, s)) = (m1, t1)"
    unfolding m1_def t1_def c1 by simp
  obtain c2 s2 where c2: "cmp (q ! ?R) (q ! m1) t1 = (c2, s2)" by (cases "cmp (q ! ?R) (q ! m1) t1")
  have "(if ?R < length q then (if num_less c2 (Num 0) then ?R else m1, s2) else (m1, t1)) = (m, s')"
    using cm unfolding choose_min_def first prod.case c2 .
  then have m: "m = (if ?R < length q \<and> num_less c2 (Num 0) then ?R else m1)"
    by (auto split: if_splits)
  have f1: "fst (cmp (q ! ?L) (q ! k) s) = c1" unfolding c1 by (rule fst_conv)
  have f2: "fst (cmp (q ! ?R) (q ! m1) t1) = c2" unfolding c2 by (rule fst_conv)
  have m1k: "le (q ! m1) (q ! k)"
  proof (cases "?L < length q \<and> num_less c1 (Num 0)")
    case True
    then have "le (q ! ?L) (q ! k)" using decides_neg[OF dec, of "q ! ?L" "q ! k" s] f1 by metis
    moreover have "m1 = ?L" unfolding m1_def by (rule if_P[OF True])
    ultimately show ?thesis by simp
  next
    case False
    have "m1 = k" unfolding m1_def by (rule if_not_P[OF False])
    then show ?thesis using decides_refl[OF dec] by simp
  qed
  have m1L: "le (q ! m1) (q ! ?L)" if L: "?L < length q"
  proof (cases "num_less c1 (Num 0)")
    case True
    with L have "m1 = ?L" unfolding m1_def by simp
    then show ?thesis using decides_refl[OF dec] by simp
  next
    case False
    then have "le (q ! k) (q ! ?L)" using decides_nonneg[OF dec, of "q ! ?L" "q ! k" s] f1 by metis
    moreover from False have "m1 = k" unfolding m1_def by simp
    ultimately show ?thesis by simp
  qed
  show "m = k \<or> m = ?L \<or> m = ?R" unfolding m m1_def by simp
  show "m < length q" unfolding m m1_def using kl by simp
  show "le (q ! m) (q ! k)"
  proof (cases "?R < length q \<and> num_less c2 (Num 0)")
    case True
    then have "le (q ! ?R) (q ! m1)" using decides_neg[OF dec, of "q ! ?R" "q ! m1" t1] f2 by metis
    from this m1k have "le (q ! ?R) (q ! k)" by (rule decides_trans[OF dec])
    moreover have "m = ?R" unfolding m by (rule if_P[OF True])
    ultimately show ?thesis by simp
  next
    case False
    have "m = m1" unfolding m by (rule if_not_P[OF False])
    with m1k show ?thesis by simp
  qed
  show "le (q ! m) (q ! ?L)" if L: "?L < length q"
  proof (cases "?R < length q \<and> num_less c2 (Num 0)")
    case True
    then have "le (q ! ?R) (q ! m1)" using decides_neg[OF dec, of "q ! ?R" "q ! m1" t1] f2 by metis
    from this m1L[OF L] have "le (q ! ?R) (q ! ?L)" by (rule decides_trans[OF dec])
    moreover have "m = ?R" unfolding m by (rule if_P[OF True])
    ultimately show ?thesis by simp
  next
    case False
    have "m = m1" unfolding m by (rule if_not_P[OF False])
    with m1L[OF L] show ?thesis by simp
  qed
  show "le (q ! m) (q ! ?R)" if R: "?R < length q"
  proof (cases "num_less c2 (Num 0)")
    case True
    with R have "m = ?R" unfolding m by simp
    then show ?thesis using decides_refl[OF dec] by simp
  next
    case False
    then have "le (q ! m1) (q ! ?R)" using decides_nonneg[OF dec, of "q ! ?R" "q ! m1" t1] f2 by metis
    moreover from False have "m = m1" unfolding m by simp
    ultimately show ?thesis by simp
  qed
qed

lemma siftDown_heap:
  "decides cmp le \<Longrightarrow> k < length q \<Longrightarrow> heap_but_down le q k \<Longrightarrow>
     heap_ok le (fst (siftDown cmp k q s))"
proof (induction cmp k q s rule: siftDown.induct)
  case (1 cmp k q s)
  note dec = "1.prems"(1) and kl = "1.prems"(2) and hb = "1.prems"(3)
  obtain m s' where cm: "choose_min cmp k q s = (m, s')" by (cases "choose_min cmp k q s")
  note least = choose_min_least[OF dec kl cm]
  from hb have
    h1: "\<And>i. i < length q \<Longrightarrow> 0 < i \<Longrightarrow> (i - 1) div 2 \<noteq> k \<Longrightarrow> le (q ! ((i - 1) div 2)) (q ! i)"
    and h2: "\<And>i. i < length q \<Longrightarrow> 0 < i \<Longrightarrow> (i - 1) div 2 = k \<Longrightarrow> 0 < k \<Longrightarrow>
                le (q ! ((k - 1) div 2)) (q ! i)"
    unfolding heap_but_down_def by blast+
  have child: "le (q ! m) (q ! i)" if "i < length q" "0 < i" "(i - 1) div 2 = k" for i
  proof -
    from parent_iff[OF that(2), of k] that(3) have "i = 2 * k + 1 \<or> i = 2 * k + 2" by blast
    then show ?thesis using least(4,5) that(1) by auto
  qed
  show ?case
  proof (cases "m = k")
    case True
    have "heap_ok le q" unfolding heap_ok_def
    proof (intro allI impI)
      fix i assume i: "i < length q" "0 < i"
      show "le (q ! ((i - 1) div 2)) (q ! i)"
      proof (cases "(i - 1) div 2 = k")
        case pk: True
        from child[OF i pk] True pk show ?thesis by simp
      next
        case False
        then show ?thesis by (rule h1[OF i])
      qed
    qed
    with cm True show ?thesis by (subst siftDown.simps) simp
  next
    case False
    with least(1) have mchild: "m = 2 * k + 1 \<or> m = 2 * k + 2" by simp
    then have km: "k < m" and pm: "(m - 1) div 2 = k" and m0: "0 < m" by auto
    note ml = least(2)
    let ?q' = "swap k m q"
    have nth': "\<And>n. ?q' ! n = (if n = m then q ! k else if n = k then q ! m else q ! n)"
      using swap_nth[OF kl ml] by simp
    have "heap_but_down le ?q' m"
      unfolding heap_but_down_def
    proof (intro conjI allI impI)
      fix i assume i: "i < length ?q'" "0 < i" "(i - 1) div 2 \<noteq> m"
      then have il: "i < length q" by simp
      let ?pi = "(i - 1) div 2"
      show "le (?q' ! ?pi) (?q' ! i)"
      proof (cases "?pi = k")
        case True
        then have e: "?q' ! ?pi = q ! m" using nth' km by simp
        have ik: "i \<noteq> k" using True i(2) by (metis less_irrefl parent_less)
        show ?thesis
        proof (cases "i = m")
          case True
          then show ?thesis unfolding e using nth' least(3) by simp
        next
          case im: False
          then have "?q' ! i = q ! i" using nth' ik by simp
          then show ?thesis unfolding e using child[OF il i(2) True] by simp
        qed
      next
        case pk: False
        have e: "?q' ! ?pi = q ! ?pi" using nth' pk i(3) by simp
        have im: "i \<noteq> m" using pk pm by auto
        show ?thesis
        proof (cases "i = k")
          case True
          then have k0: "0 < k" using i(2) by simp
          have "?q' ! i = q ! m" using nth' True km by simp
          moreover have "le (q ! ((k - 1) div 2)) (q ! m)" by (rule h2[OF ml m0 pm k0])
          ultimately show ?thesis unfolding e using True by simp
        next
          case False
          then have "?q' ! i = q ! i" using nth' im by simp
          then show ?thesis unfolding e using h1[OF il i(2) pk] by simp
        qed
      qed
    next
      fix i assume i: "i < length ?q'" "0 < i" "(i - 1) div 2 = m" "0 < m"
      then have il: "i < length q" by simp
      have "m < i" using i(2,3) parent_less by metis
      then have "i \<noteq> m" "i \<noteq> k" using km by auto
      then have "?q' ! i = q ! i" using nth' by simp
      moreover have "?q' ! ((m - 1) div 2) = q ! m" using nth' pm km by simp
      moreover have "le (q ! m) (q ! i)" using h1[OF il i(2)] i(3) km by simp
      ultimately show "le (?q' ! ((m - 1) div 2)) (?q' ! i)" by simp
    qed
    from "1.IH"[OF cm[symmetric] False dec _ this] ml
    have "heap_ok le (fst (siftDown cmp m ?q' s'))" by simp
    with cm False show ?thesis by (subst siftDown.simps) simp
  qed
qed

lemma heap_root_least:
  assumes dec: "decides cmp le" and h: "heap_ok le q"
  shows "i < length q \<Longrightarrow> le (q ! 0) (q ! i)"
proof (induction i rule: less_induct)
  case (less i)
  show ?case
  proof (cases "i = 0")
    case True
    then show ?thesis using decides_refl[OF dec] by simp
  next
    case False
    then have i0: "0 < i" by simp
    have p: "(i - 1) div 2 < i" using i0 by simp
    have "le (q ! 0) (q ! ((i - 1) div 2))" using less.IH[OF p] less.prems p by simp
    moreover have "le (q ! ((i - 1) div 2)) (q ! i)" using h less.prems i0 unfolding heap_ok_def by blast
    ultimately show ?thesis by (rule decides_trans[OF dec])
  qed
qed

lemma push_heap:
  assumes dec: "decides cmp le" and h: "heap_ok le q"
  shows "heap_ok le (fst (PriorityQueue_push cmp item q s))"
proof -
  have "heap_but_up le (q @ [item]) (length q)"
    unfolding heap_but_up_def
  proof (intro conjI allI impI)
    fix i assume i: "i < length (q @ [item])" "0 < i" "i \<noteq> length q"
    then have il: "i < length q" by simp
    then have "(i - 1) div 2 < length q" by simp
    with il show "le ((q @ [item]) ! ((i - 1) div 2)) ((q @ [item]) ! i)"
      using h i(2) unfolding heap_ok_def by (simp add: nth_append)
  next
    fix i assume i: "i < length (q @ [item])" "0 < i" "(i - 1) div 2 = length q"
    then have False by simp
    then show "le ((q @ [item]) ! ((length q - 1) div 2)) ((q @ [item]) ! i)" ..
  qed
  then show ?thesis
    unfolding PriorityQueue_push_def using siftUp_heap[OF dec, of "length q" "q @ [item]" s]
    by simp
qed

lemma shifted_nth:
  "0 < j \<Longrightarrow> j < Suc (length xs) \<Longrightarrow> ((x # xs) @ [y]) ! j = (y # xs) ! j"
  by (cases j) (simp_all add: nth_append)

lemma pop_heap:
  assumes dec: "decides cmp le" and h: "heap_ok le q"
  shows "heap_ok le (fst (snd (PriorityQueue_pop cmp q s)))"
proof (cases q rule: rev_cases)
  case Nil
  then show ?thesis by (simp add: heap_ok_def)
next
  case (snoc xs y)
  show ?thesis
  proof (cases xs)
    case Nil
    with snoc show ?thesis by (simp add: PriorityQueue_pop_def heap_ok_def)
  next
    case (Cons x xs')
    let ?b = "y # xs'"
    have q: "q = (x # xs') @ [y]" using snoc Cons by simp
    have "heap_but_down le ?b 0"
      unfolding heap_but_down_def
    proof (intro conjI allI impI)
      fix i assume i: "i < length ?b" "0 < i" "(i - 1) div 2 \<noteq> 0"
      then have il: "i < length q" and p0: "0 < (i - 1) div 2" unfolding q by simp_all
      have "le (q ! ((i - 1) div 2)) (q ! i)" using h il i(2) unfolding heap_ok_def by blast
      moreover have "q ! i = ?b ! i" using i(1,2) unfolding q by (rule_tac shifted_nth) simp_all
      moreover have "q ! ((i - 1) div 2) = ?b ! ((i - 1) div 2)"
        using i(1) p0 unfolding q by (rule_tac shifted_nth) simp_all
      ultimately show "le (?b ! ((i - 1) div 2)) (?b ! i)" by simp
    next
      fix i assume "(0::nat) < 0"
      then show "le (?b ! ((0 - 1) div 2)) (?b ! i)" by simp
    qed
    from siftDown_heap[OF dec _ this, of s]
    have "heap_ok le (fst (siftDown cmp 0 ?b s))" by simp
    then show ?thesis unfolding q
      by (simp add: PriorityQueue_pop_def split: prod.splits)
  qed
qed

subsection \<open>Sequences of queue operations\<close>

datatype 'a pq_op = Push 'a | Pop | Peek

text \<open>
  One operation on the queue; the third component collects what the successful pops
  returned, in order.
\<close>

fun pq_apply ::
  "('a, 's) Comparator \<Rightarrow> 'a pq_op \<Rightarrow> 'a list \<times> 's \<times> 'a list \<Rightarrow> 'a list \<times> 's \<times> 'a list" where
  "pq_apply cmp (Push item) (q, s, popped) =
     (case PriorityQueue_push cmp item q s of (q', s') \<Rightarrow> (q', s', popped))"
| "pq_apply cmp Pop (q, s, popped) =
     (case PriorityQueue_pop cmp q s of
        (None, q', s') \<Rightarrow> (q', s', popped)
      | (Some x, q', s') \<Rightarrow> (q', s', popped @ [x]))"
| "pq_apply cmp Peek (q, s, popped) = (q, s, popped)"

definition pq_run ::
  "('a, 's) Comparator \<Rightarrow> 'a pq_op list \<Rightarrow> 's \<Rightarrow> 'a list \<times> 's \<times> 'a list" where
  "pq_run cmp ops s = fold (pq_apply cmp) ops ([], s, [])"

text \<open>Up to \<open>n\<close> pops in a row; what they return, until the queue is empty.\<close>

fun pop_n :: "('a, 's) Comparator \<Rightarrow> nat \<Rightarrow> 'a list \<Rightarrow> 's \<Rightarrow> 'a list" where
  "pop_n cmp 0 q s = []"
| "pop_n cmp (Suc n) q s =
     (case PriorityQueue_pop cmp q s of
        (None, q', s') \<Rightarrow> []
      | (Some x, q', s') \<Rightarrow> x # pop_n cmp n q' s')"

definition is_Push :: "'a pq_op \<Rightarrow> bool" where
  "is_Push op = (case op of Push _ \<Rightarrow> True | _ \<Rightarrow> False)"

text \<open>
  A valid comparator: the signs of \<open>f a b\<close> and \<open>f b a\<close> are opposite, and "not after"
  (an answer that is not positive) is transitive.
\<close>

definition valid_comparator :: "('a \<Rightarrow> 'a \<Rightarrow> number) \<Rightarrow> bool" where
  "valid_comparator f \<longleftrightarrow>
     (\<forall>a b. num_less (f a b) (Num 0) \<longleftrightarrow> num_less (Num 0) (f b a)) \<and>
     (\<forall>a b c. \<not> num_less (Num 0) (f a b) \<longrightarrow> \<not> num_less (Num 0) (f b c) \<longrightarrow>
        \<not> num_less (Num 0) (f a c))"

definition not_after :: "('a \<Rightarrow> 'a \<Rightarrow> number) \<Rightarrow> 'a \<Rightarrow> 'a \<Rightarrow> bool" where
  "not_after f x y \<longleftrightarrow> \<not> num_less (Num 0) (f x y)"

lemma num_less_asym: "num_less a b \<Longrightarrow> \<not> num_less b a"
  by (cases a; cases b) simp_all

lemma valid_decides:
  assumes "valid_comparator f"
  shows "decides (pure_cmp f) (not_after f)"
  unfolding decides_def not_after_def pure_cmp_def
proof (intro conjI allI impI)
  fix a b and s :: 's
  assume "num_less (fst (f a b, s)) (Num 0)"
  then show "\<not> num_less (Num 0) (f a b)" using num_less_asym by auto
next
  fix a b and s :: 's
  assume "\<not> num_less (fst (f a b, s)) (Num 0)"
  then show "\<not> num_less (Num 0) (f b a)" using assms unfolding valid_comparator_def by simp
next
  fix a b c
  assume "\<not> num_less (Num 0) (f a b)" "\<not> num_less (Num 0) (f b c)"
  then show "\<not> num_less (Num 0) (f a c)" using assms unfolding valid_comparator_def by blast
qed

lemma pq_apply_inv:
  assumes dec: "decides cmp le"
    and st: "pq_apply cmp op (q, s, popped) = (q', s', popped')"
    and h: "heap_ok le q"
  shows "heap_ok le q'"
    and "length q' + length popped' = length q + length popped + (if is_Push op then 1 else 0)"
proof -
  show "heap_ok le q'"
  proof (cases op)
    case (Push item)
    with st push_heap[OF dec h, of item s] show ?thesis by (auto split: prod.splits)
  next
    case Pop
    with st pop_heap[OF dec h, of s] show ?thesis by (auto split: prod.splits option.splits)
  next
    case Peek
    with st h show ?thesis by simp
  qed
  show "length q' + length popped' = length q + length popped + (if is_Push op then 1 else 0)"
  proof (cases op)
    case (Push item)
    obtain q1 s1 where p: "PriorityQueue_push cmp item q s = (q1, s1)"
      by (cases "PriorityQueue_push cmp item q s")
    then have "length q1 = Suc (length q)" using push_length[of cmp item q s] by simp
    with st Push p show ?thesis by (simp add: is_Push_def)
  next
    case Pop
    show ?thesis
    proof (cases "q = []")
      case True
      with st Pop show ?thesis by (simp add: is_Push_def)
    next
      case False
      from pop_nonempty[OF False, of cmp s] st Pop show ?thesis
        by (auto simp: is_Push_def)
    qed
  next
    case Peek
    with st show ?thesis by (simp add: is_Push_def)
  qed
qed

lemma pq_fold_inv:
  assumes dec: "decides cmp le"
  shows "fold (pq_apply cmp) ops (q, s, popped) = (q', s', popped') \<Longrightarrow> heap_ok le q \<Longrightarrow>
           heap_ok le q' \<and>
           length q' + length popped' = length q + length popped + length (filter is_Push ops)"
proof (induction ops arbitrary: q s popped)
  case Nil
  then show ?case by simp
next
  case (Cons op ops)
  obtain q1 s1 p1 where st: "pq_apply cmp op (q, s, popped) = (q1, s1, p1)"
    by (metis prod_cases3)
  note one = pq_apply_inv[OF dec st Cons.prems(2)]
  from Cons.prems(1) st have "fold (pq_apply cmp) ops (q1, s1, p1) = (q', s', popped')" by simp
  from Cons.IH[OF this one(1)] one(2) show ?case by auto
qed

lemma pop_n_sorted:
  assumes dec: "decides cmp le"
  shows "heap_ok le q \<Longrightarrow> sorted_wrt le (pop_n cmp n q s) \<and> set (pop_n cmp n q s) \<subseteq> set q"
proof (induction n arbitrary: q s)
  case 0
  show ?case by simp
next
  case (Suc n)
  show ?case
  proof (cases "q = []")
    case True
    then show ?thesis by simp
  next
    case False
    from pop_nonempty[OF False, of cmp s]
    obtain q' s' where pop: "PriorityQueue_pop cmp q s = (Some (q ! 0), q', s')"
      and ms: "add_mset (q ! 0) (mset q') = mset q" by blast
    have "set_mset (add_mset (q ! 0) (mset q')) = set_mset (mset q)" using ms by simp
    then have sub: "set q' \<subseteq> set q" by auto
    have h': "heap_ok le q'" using pop_heap[OF dec Suc.prems, of s] pop by simp
    from Suc.IH[OF h', of s'] have ih: "sorted_wrt le (pop_n cmp n q' s')"
      "set (pop_n cmp n q' s') \<subseteq> set q'" by auto
    have least: "\<And>y. y \<in> set q \<Longrightarrow> le (q ! 0) y"
      using heap_root_least[OF dec Suc.prems] by (metis in_set_conv_nth)
    have "\<forall>y \<in> set (pop_n cmp n q' s'). le (q ! 0) y" using ih(2) sub least by blast
    moreover have "q ! 0 \<in> set q" using False by simp
    ultimately show ?thesis using pop ih sub by auto
  qed
qed

text \<open>\<open>pop_n\<close> is what \<open>n\<close> more pops append to the popped elements of a run.\<close>

lemma pops_on_empty: "fold (pq_apply cmp) (replicate n Pop) ([], s, popped) = ([], s, popped)"
  by (induction n) (simp_all del: fold_replicate)

lemma pops_in_a_row:
  "snd (snd (fold (pq_apply cmp) (replicate n Pop) (q, s, popped))) = popped @ pop_n cmp n q s"
proof (induction n arbitrary: q s popped)
  case 0
  show ?case by (simp del: fold_replicate)
next
  case (Suc n)
  show ?case
  proof (cases "q = []")
    case True
    then show ?thesis by (simp add: pops_on_empty del: fold_replicate)
  next
    case False
    from pop_nonempty[OF False, of cmp s] obtain q' s' where
      pop: "PriorityQueue_pop cmp q s = (Some (q ! 0), q', s')" by blast
    show ?thesis using Suc.IH[of q' s' "popped @ [q ! 0]"] by (simp add: pop del: fold_replicate)
  qed
qed

lemma pq_run_pops:
  "pq_run cmp ops s = (q, s', popped) \<Longrightarrow>
   snd (snd (pq_run cmp (ops @ replicate n Pop) s)) = popped @ pop_n cmp n q s'"
  by (simp add: pq_run_def pops_in_a_row del: fold_replicate)

lemma pq_run_inv:
  assumes "decides cmp le" and "pq_run cmp ops s = (q, s', popped)"
  shows "heap_ok le q" and "length q + length popped = length (filter is_Push ops)"
proof -
  have "heap_ok le []" by (simp add: heap_ok_def)
  from pq_fold_inv[OF assms(1) assms(2)[unfolded pq_run_def] this]
  show "heap_ok le q" and "length q + length popped = length (filter is_Push ops)" by simp_all
qed

lemma pop_least:
  assumes dec: "decides cmp le" and h: "heap_ok le q"
    and pop: "fst (PriorityQueue_pop cmp q s) = Some x"
  shows "x \<in> set q \<and> (\<forall>y \<in> set q. le x y)"
proof (cases "q = []")
  case True
  with pop show ?thesis by simp
next
  case False
  from pop_nonempty[OF False, of cmp s] pop have x: "x = q ! 0" by auto
  have "\<forall>y \<in> set q. le (q ! 0) y"
    using heap_root_least[OF dec h] by (metis in_set_conv_nth)
  with x False show ?thesis by simp
qed

text \<open>
  Claim C5, amended in its first part. Let the comparator be valid and let any sequence
  of pushes, pops and peeks have run on a new queue. Then the length of the queue plus
  the number of successful pops is the number of pushes; a pop on the queue, when it is
  not empty, returns an element of the queue that is not after any element the queue
  holds at that moment, so that pops in a row, with no push in between, return a
  non-decreasing sequence (\<open>pop_n\<close>, which is what these pops append to the popped
  elements); and pop and peek on an empty queue return nothing.
\<close>

theorem priority_queue_pops_least:
  assumes "valid_comparator f"
  shows "(case pq_run (pure_cmp f) ops s of
            (q, s', popped) \<Rightarrow>
              length q + length popped = length (filter is_Push ops) \<and>
              snd (snd (pq_run (pure_cmp f) (ops @ replicate n Pop) s)) =
                popped @ pop_n (pure_cmp f) n q s' \<and>
              sorted_wrt (not_after f) (pop_n (pure_cmp f) n q s') \<and>
              (q \<noteq> [] \<longrightarrow>
                 (\<exists>x. fst (PriorityQueue_pop (pure_cmp f) q s') = Some x \<and>
                      x \<in> set q \<and> (\<forall>y \<in> set q. not_after f x y)))) \<and>
         fst (PriorityQueue_pop (pure_cmp f) [] s) = None \<and>
         PriorityQueue_peek ([] :: 'a list) = None"
proof -
  obtain q s' popped where run: "pq_run (pure_cmp f) ops s = (q, s', popped)"
    by (metis prod_cases3)
  note dec = valid_decides[OF assms]
  note inv = pq_run_inv[OF dec run]
  have srt: "sorted_wrt (not_after f) (pop_n (pure_cmp f) n q s')"
    using pop_n_sorted[OF dec inv(1), of n s'] by (rule conjunct1)
  have least: "q \<noteq> [] \<longrightarrow>
                 (\<exists>x. fst (PriorityQueue_pop (pure_cmp f) q s') = Some x \<and>
                      x \<in> set q \<and> (\<forall>y \<in> set q. not_after f x y))"
  proof
    assume "q \<noteq> []"
    from pop_nonempty[OF this, of "pure_cmp f" s']
    have pop: "fst (PriorityQueue_pop (pure_cmp f) q s') = Some (q ! 0)" by auto
    from pop_least[OF dec inv(1) pop] pop
    show "\<exists>x. fst (PriorityQueue_pop (pure_cmp f) q s') = Some x \<and>
               x \<in> set q \<and> (\<forall>y \<in> set q. not_after f x y)"
      by (intro exI[of _ "q ! 0"]) simp
  qed
  have empty: "fst (PriorityQueue_pop (pure_cmp f) [] s) = None"
    by (simp add: PriorityQueue_pop_def)
  have peek: "PriorityQueue_peek ([] :: 'a list) = None"
    by (simp add: PriorityQueue_peek_def)
  show ?thesis
    unfolding run prod.case
    by (rule conjI[OF conjI[OF inv(2) conjI[OF pq_run_pops[OF run] conjI[OF srt least]]]
          conjI[OF empty peek]])
qed

lemma valid_difference: "valid_comparator (\<lambda>a b. Num (a - b :: real))"
  by (simp add: valid_comparator_def)

theorem priority_queue_pops_least_witness:
  "valid_comparator (\<lambda>a b. Num (a - b :: real)) \<and>
   pq_run (pure_cmp (\<lambda>a b. Num (a - b))) [Push 5, Push 1, Push 3, Pop] () = ([3, 5], (), [1]) \<and>
   fst (PriorityQueue_pop (pure_cmp (\<lambda>a b. Num (a - b))) [3, 5 :: real] ()) = Some 3 \<and>
   not_after (\<lambda>a b. Num (a - b)) (3 :: real) 5 \<and>
   sorted_wrt (not_after (\<lambda>a b. Num (a - b))) (pop_n (pure_cmp (\<lambda>a b. Num (a - b))) 2 [3, 5 :: real] ())"
proof -
  let ?f = "\<lambda>a b. Num (a - b :: real)"
  have run: "pq_run (pure_cmp ?f) [Push 5, Push 1, Push 3, Pop] () = ([3, 5], (), [1])"
    by (simp add: pq_run_def PriorityQueue_push_def PriorityQueue_pop_def siftUp.simps
        siftDown.simps choose_min_def swap_def pure_cmp_def)
  have pop: "fst (PriorityQueue_pop (pure_cmp ?f) [3, 5 :: real] ()) = Some 3"
    by (simp add: PriorityQueue_pop_def case_prod_beta)
  note th = priority_queue_pops_least[OF valid_difference,
      where ops = "[Push 5, Push 1, Push 3, Pop]" and s = "()" and n = 2]
  have srt: "sorted_wrt (not_after ?f) (pop_n (pure_cmp ?f) 2 [3, 5] ())"
    using th unfolding run prod.case by blast
  have "[3, 5 :: real] \<noteq> [] \<longrightarrow>
          (\<exists>x. fst (PriorityQueue_pop (pure_cmp ?f) [3, 5] ()) = Some x \<and>
               x \<in> set [3, 5] \<and> (\<forall>y \<in> set [3, 5]. not_after ?f x y))"
    using th unfolding run prod.case by (elim conjE)
  then obtain x where "fst (PriorityQueue_pop (pure_cmp ?f) [3, 5] ()) = Some x"
    and "\<forall>y \<in> set [3, 5 :: real]. not_after ?f x y" by auto
  with pop have "\<forall>y \<in> set [3, 5 :: real]. not_after ?f 3 y" by simp
  then have na: "not_after ?f 3 5" by simp
  show ?thesis
    by (rule conjI[OF valid_difference conjI[OF run conjI[OF pop conjI[OF na srt]]]])
qed

text \<open>
  As stated for interleaved sequences, the first part of the claim fails: a push after
  a pop may bring a smaller element. Push 5, pop, push 1, pop returns 5 and then 1.
\<close>

theorem priority_queue_interleaved_counterexample:
  "valid_comparator (\<lambda>a b. Num (a - b :: real)) \<and>
   snd (snd (pq_run (pure_cmp (\<lambda>a b. Num (a - b))) [Push 5, Pop, Push 1, Pop] ())) = [5, 1 :: real] \<and>
   \<not> sorted_wrt (not_after (\<lambda>a b. Num (a - b))) [5, 1 :: real]"
proof -
  have run: "snd (snd (pq_run (pure_cmp (\<lambda>a b. Num (a - b))) [Push 5, Pop, Push 1, Pop] ())) = [5, 1 :: real]"
    by (simp add: pq_run_def PriorityQueue_push_def PriorityQueue_pop_def siftUp.simps
        siftDown.simps choose_min_def swap_def pure_cmp_def)
  have unsorted: "\<not> sorted_wrt (not_after (\<lambda>a b. Num (a - b))) [5, 1 :: real]"
    by (simp add: not_after_def)
  show ?thesis
    by (rule conjI[OF valid_difference conjI[OF run unsorted]])
qed

section \<open>Multi-view queue (queue.ts, class MultiQueue)\<close>

text \<open>
  An item is a payload with the id that \<open>push\<close> gave it. The queue holds one heap per
  priority key, all over the same items; the heap of a key compares the payloads with
  the comparator of that key. \<open>Record<PK, _>\<close> is a total function on the type of the
  keys, and \<open>pKeys\<close> lists the keys in the order of \<open>Object.keys\<close>. The live ids are a
  \<open>Set\<close>; ids are natural numbers, counted up from 0.
\<close>

type_synonym 'a Item = "nat \<times> 'a"

definition item_cmp :: "('a, 's) Comparator \<Rightarrow> ('a Item, 's) Comparator" where
  "item_cmp cmp = (\<lambda>a b. cmp (snd a) (snd b))"

definition set_delete :: "'a \<Rightarrow> 'a list \<Rightarrow> 'a list" where
  "set_delete x xs = removeAll x xs"

record ('a, 'k) MultiQueue =
  pKeys :: "'k list"
  qs :: "'k \<Rightarrow> 'a Item list"
  live :: "nat list"
  nextId :: nat





text \<open>
  The loop of \<open>pop\<close> on one heap: the top is removed until a live one is found, which
  leaves the live set. The result is the item whose payload \<open>pop\<close> returns.
\<close>

function pop_loop ::
  "('a Item, 's) Comparator \<Rightarrow> 'a Item list \<Rightarrow> nat list \<Rightarrow> 's \<Rightarrow>
   'a Item option \<times> 'a Item list \<times> nat list \<times> 's" where
  "pop_loop cmp q lv s =
     (case PriorityQueue_peek q of
        None \<Rightarrow> (None, q, lv, s)
      | Some x \<Rightarrow>
          (case PriorityQueue_pop cmp q s of
             (_, q', s') \<Rightarrow>
               if fst x \<in> set lv then (Some x, q', set_delete (fst x) lv, s')
               else pop_loop cmp q' lv s'))"
  by pat_completeness auto
termination
proof (relation "measure (\<lambda>(cmp, q, lv, s). length q)", goal_cases)
  case 1
  show ?case by simp
next
  case (2 cmp q lv s x r rest q' s')
  from 2(1) have "q \<noteq> []" by (auto simp: PriorityQueue_peek_def split: if_splits)
  from pop_nonempty[OF this, of cmp s] 2 show ?case by auto
qed

declare pop_loop.simps [simp del]

definition MultiQueue_pop_item ::
  "('k \<Rightarrow> ('a, 's) Comparator) \<Rightarrow> 'k \<Rightarrow> ('a, 'k) MultiQueue \<Rightarrow> 's \<Rightarrow>
   'a Item option \<times> ('a, 'k) MultiQueue \<times> 's" where
  "MultiQueue_pop_item pCmps key mq s =
     (case pop_loop (item_cmp (pCmps key)) (qs mq key) (live mq) s of
        (r, q', lv, s') \<Rightarrow> (r, mq\<lparr>qs := (qs mq)(key := q'), live := lv\<rparr>, s'))"

definition MultiQueue_pop ::
  "('k \<Rightarrow> ('a, 's) Comparator) \<Rightarrow> 'k \<Rightarrow> ('a, 'k) MultiQueue \<Rightarrow> 's \<Rightarrow>
   'a option \<times> ('a, 'k) MultiQueue \<times> 's" where
  "MultiQueue_pop pCmps key mq s =
     (case MultiQueue_pop_item pCmps key mq s of (r, mq', s') \<Rightarrow> (map_option snd r, mq', s'))"

text \<open>The loop of \<open>peek\<close>: dead tops are removed, a live top stays.\<close>

function peek_loop ::
  "('a Item, 's) Comparator \<Rightarrow> 'a Item list \<Rightarrow> nat list \<Rightarrow> 's \<Rightarrow>
   'a Item option \<times> 'a Item list \<times> 's" where
  "peek_loop cmp q lv s =
     (case PriorityQueue_peek q of
        None \<Rightarrow> (None, q, s)
      | Some x \<Rightarrow>
          if fst x \<in> set lv then (Some x, q, s)
          else (case PriorityQueue_pop cmp q s of (_, q', s') \<Rightarrow> peek_loop cmp q' lv s'))"
  by pat_completeness auto
termination
proof (relation "measure (\<lambda>(cmp, q, lv, s). length q)", goal_cases)
  case 1
  show ?case by simp
next
  case (2 cmp q lv s x r rest q' s')
  from 2(1) have "q \<noteq> []" by (auto simp: PriorityQueue_peek_def split: if_splits)
  from pop_nonempty[OF this, of cmp s] 2 show ?case by auto
qed

declare peek_loop.simps [simp del]

definition MultiQueue_peek_item ::
  "('k \<Rightarrow> ('a, 's) Comparator) \<Rightarrow> 'k \<Rightarrow> ('a, 'k) MultiQueue \<Rightarrow> 's \<Rightarrow>
   'a Item option \<times> ('a, 'k) MultiQueue \<times> 's" where
  "MultiQueue_peek_item pCmps key mq s =
     (case peek_loop (item_cmp (pCmps key)) (qs mq key) (live mq) s of
        (r, q', s') \<Rightarrow> (r, mq\<lparr>qs := (qs mq)(key := q')\<rparr>, s'))"

definition MultiQueue_peek ::
  "('k \<Rightarrow> ('a, 's) Comparator) \<Rightarrow> 'k \<Rightarrow> ('a, 'k) MultiQueue \<Rightarrow> 's \<Rightarrow>
   'a option \<times> ('a, 'k) MultiQueue \<times> 's" where
  "MultiQueue_peek pCmps key mq s =
     (case MultiQueue_peek_item pCmps key mq s of (r, mq', s') \<Rightarrow> (map_option snd r, mq', s'))"


subsection \<open>Sequences of operations on a multi-view queue\<close>



























end
